theory Spec2Isabelle
  imports Main "HOL-Library.Word"
begin

section \<open>Byte buffers\<close>

text \<open>
  A Node \<open>Buffer\<close> is a sequence of bytes.  The operations below are the ones the
  library uses: \<open>Buffer.alloc\<close> (zero filled), \<open>copy\<close> into a target at an offset
  (silently truncated at the end of the target), indexed reads (\<open>undefined\<close> out of
  range, here \<open>None\<close>) and \<open>slice\<close> between two non-negative offsets (clamped).
\<close>

type_synonym byte = "8 word"
type_synonym buffer = "byte list"

definition Buffer_alloc :: "nat \<Rightarrow> buffer" where
  "Buffer_alloc n = replicate n 0"

definition buf_copy :: "buffer \<Rightarrow> buffer \<Rightarrow> nat \<Rightarrow> buffer" where
  "buf_copy src tgt tstart =
     (if length tgt \<le> tstart then tgt
      else let n = min (length src) (length tgt - tstart)
           in take tstart tgt @ take n src @ drop (tstart + n) tgt)"

definition buf_get :: "buffer \<Rightarrow> nat \<Rightarrow> byte option" where
  "buf_get buf i = (if i < length buf then Some (buf ! i) else None)"

definition buf_slice :: "buffer \<Rightarrow> nat \<Rightarrow> nat \<Rightarrow> buffer" where
  "buf_slice buf s e = take (e - s) (drop s buf)"

text \<open>
  \<open>Buffer.slice(start, end)\<close> on integer offsets: a negative offset counts from the
  end, both offsets are clamped to the buffer, and an end that is not after the
  start gives the empty buffer.  An omitted end is the length; \<open>null\<close> converts to 0.
\<close>

definition adjust_offset :: "int \<Rightarrow> nat \<Rightarrow> nat" where
  "adjust_offset offset len =
     (if offset < 0 then nat (max (offset + int len) 0) else min (nat offset) len)"

definition Buffer_slice :: "buffer \<Rightarrow> int \<Rightarrow> int option \<Rightarrow> buffer" where
  "Buffer_slice buf start end =
     (let s = adjust_offset start (length buf);
          e = (case end of None \<Rightarrow> length buf | Some e \<Rightarrow> adjust_offset e (length buf))
      in take (e - s) (drop s buf))"

definition null_to_int :: "int option \<Rightarrow> int" where
  "null_to_int v = (case v of None \<Rightarrow> 0 | Some n \<Rightarrow> n)"

section \<open>Decimal rendering of counters\<close>

text \<open>A template literal renders a non-negative integer counter in decimal.\<close>

fun digit_char :: "nat \<Rightarrow> char" where
  "digit_char n = char_of (48 + n)"

fun show_nat :: "nat \<Rightarrow> string" where
  "show_nat n =
     (if n < 10 then [digit_char n] else show_nat (n div 10) @ [digit_char (n mod 10)])"

declare show_nat.simps [simp del]

section \<open>Request-id counters\<close>

definition id_modulus :: nat where
  "id_modulus = 2 ^ 32 - 1"

text \<open>
  \<open>Session._get_command_id\<close>:
  \<^verbatim>\<open>this._command_id = (this._command_id+1)%(2**32-1); return this._command_id\<close>.
  The function takes the counter and returns the value returned together with the
  counter as stored.
\<close>

definition get_command_id :: "nat \<Rightarrow> nat \<times> nat" where
  "get_command_id command_id =
     (let command_id = (command_id + 1) mod id_modulus in (command_id, command_id))"

text \<open>
  \<open>_Files._get_request_id\<close>:
  \<^verbatim>\<open>this._request_id = this._request_id++%(2**32-1); return this._request_id\<close>.
  The postfix increment yields the old value and stores the successor; the
  assignment then stores the remainder of the old value over it.
\<close>

definition post_increment :: "nat \<Rightarrow> nat \<times> nat" where
  "post_increment x = (x, x + 1)"

definition get_request_id :: "nat \<Rightarrow> nat \<times> nat" where
  "get_request_id request_id =
     (let (old, request_id) = post_increment request_id;
          request_id = old mod id_modulus
      in (request_id, request_id))"

text \<open>The values returned by \<open>n\<close> successive calls, and the counter left behind.\<close>

primrec request_id_calls :: "nat \<Rightarrow> nat \<Rightarrow> nat list \<times> nat" where
  "request_id_calls 0 request_id = ([], request_id)"
| "request_id_calls (Suc n) request_id =
     (let (v, request_id) = get_request_id request_id;
          (vs, request_id) = request_id_calls n request_id
      in (v # vs, request_id))"

text \<open>The request ids built by \<open>_Files.upload\<close> and \<open>_Files.download\<close>.\<close>

definition upload_request_id :: "nat \<Rightarrow> string" where
  "upload_request_id n = ''upload_'' @ show_nat n"

definition download_request_id :: "nat \<Rightarrow> string" where
  "download_request_id n = ''download_'' @ show_nat n"

section \<open>Upload: chunker and chunk framing\<close>

text \<open>
  \<open>_SizeChunker\<close> is a transform stream holding a buffer.  \<open>_transform\<close> appends the
  incoming data and pushes full chunks while more than one chunk size remains;
  \<open>_flush\<close> pushes what is left.  The loop does not end for a chunk size of zero
  on a non-empty buffer, so it is a partial function.
\<close>

record size_chunker =
  chunksize :: nat
  sc_buffer :: buffer

definition new_size_chunker :: "nat \<Rightarrow> size_chunker" where
  "new_size_chunker n = \<lparr>chunksize = n, sc_buffer = Buffer_alloc 0\<rparr>"

partial_function (option) transform_loop ::
  "nat \<Rightarrow> buffer \<Rightarrow> nat \<Rightarrow> buffer list \<Rightarrow> (nat \<times> buffer list) option" where
  "transform_loop csize buf chunk_start pushed =
     (if chunk_start + csize < length buf
      then transform_loop csize buf (chunk_start + csize)
             (pushed @ [buf_slice buf chunk_start (chunk_start + csize)])
      else Some (chunk_start, pushed))"

definition chunker_transform :: "size_chunker \<Rightarrow> buffer \<Rightarrow> (size_chunker \<times> buffer list) option" where
  "chunker_transform c chunk =
     (let buf = sc_buffer c @ chunk
      in case transform_loop (chunksize c) buf 0 [] of
           None \<Rightarrow> None
         | Some (chunk_start, pushed) \<Rightarrow>
             Some (c\<lparr>sc_buffer := drop chunk_start buf\<rparr>, pushed))"

definition chunker_flush :: "size_chunker \<Rightarrow> buffer list" where
  "chunker_flush c = [sc_buffer c]"

text \<open>
  Piping a source into the chunker: every piece the source delivers goes through
  \<open>_transform\<close>, the end of the source through \<open>_flush\<close>.  The result is the
  sequence of chunks pushed.
\<close>

fun chunker_run :: "size_chunker \<Rightarrow> buffer list \<Rightarrow> buffer list option" where
  "chunker_run c [] = Some (chunker_flush c)"
| "chunker_run c (w # ws) =
     (case chunker_transform c w of
        None \<Rightarrow> None
      | Some (c', pushed) \<Rightarrow> map_option ((@) pushed) (chunker_run c' ws))"

text \<open>
  The \<open>data\<close> handler installed by \<open>_Files._handle_upload\<close> on \<open>uploadstart\<close>.
  It works on the upload request (its byte count and in-flight counter) and on the
  frames handed to the socket so far.
\<close>

record upload_req =
  req_size :: nat
  req_inflight :: nat
  req_complete :: bool

definition upload_on_data :: "upload_req \<Rightarrow> buffer list \<Rightarrow> buffer \<Rightarrow> upload_req \<times> buffer list" where
  "upload_on_data req sent new_buf =
     (let buf = Buffer_alloc 65565;
          len = length new_buf;
          start = 1;
          buf = buf_copy new_buf buf start
      in if len > 0 then
           let req = req\<lparr>req_size := req_size req + len\<rparr>;
               (start, buf, len) =
                 (if buf_get buf 1 = Some 0 \<or> buf_get buf 1 = Some 123
                  then (0, buf[0 := 0], len + 1) else (start, buf, len));
               sent = sent @ [buf_slice buf start (start + len)];
               req = req\<lparr>req_inflight := req_inflight req + 1\<rparr>
           in (req, sent)
         else (req, sent))"

text \<open>The frame put on the wire for a chunk, if any.\<close>

definition upload_frames :: "buffer \<Rightarrow> buffer list" where
  "upload_frames new_buf = snd (upload_on_data \<lparr>req_size = 0, req_inflight = 0, req_complete = False\<rparr> [] new_buf)"

section \<open>Shell\<close>

record shell =
  sh_buffer :: buffer
  readyState :: nat

record failure =
  reason :: string
  read_data :: "buffer option"

datatype 'a outcome = Resolve 'a | Reject failure | Pending

record tick =
  t_now :: int
  t_arrived :: buffer
  t_readyState :: nat

definition env :: "tick \<Rightarrow> shell \<Rightarrow> shell" where
  "env k sh = sh\<lparr>sh_buffer := sh_buffer sh @ t_arrived k, readyState := t_readyState k\<rparr>"

definition read_check_data ::
  "int option \<Rightarrow> int option \<Rightarrow> bool \<Rightarrow> int \<Rightarrow> int \<Rightarrow> shell \<Rightarrow> buffer outcome \<times> shell" where
  "read_check_data len timeout return_intermediate start now sh =
     (if (timeout \<noteq> None \<and> now - start > the timeout) \<or> readyState sh > 1 then
        let obj = \<lparr>reason = (if readyState sh < 2 then ''timeout'' else ''closed''), read_data = None\<rparr>
        in if return_intermediate then
             let obj = obj\<lparr>read_data := Some (Buffer_slice (sh_buffer sh) 0 (Some (null_to_int len)))\<rparr>;
                 sh = sh\<lparr>sh_buffer := Buffer_slice (sh_buffer sh) (null_to_int len) None\<rparr>
             in (Reject obj, sh)
           else (Reject obj, sh)
      else if len \<noteq> None \<and> int (length (sh_buffer sh)) < the len then (Pending, sh)
      else if len \<noteq> None then
        let data = Buffer_slice (sh_buffer sh) 0 (Some (the len));
            sh = sh\<lparr>sh_buffer := Buffer_slice (sh_buffer sh) (the len) None\<rparr>
        in (Resolve data, sh)
      else
        let data = Buffer_slice (sh_buffer sh) 0 None;
            sh = sh\<lparr>sh_buffer := []\<rparr>
        in (Resolve data, sh))"

fun read_from ::
  "int \<Rightarrow> int option \<Rightarrow> int option \<Rightarrow> bool \<Rightarrow> shell \<Rightarrow> int \<Rightarrow> tick list \<Rightarrow> buffer outcome \<times> shell" where
  "read_from start len timeout ri sh now [] = read_check_data len timeout ri start now sh"
| "read_from start len timeout ri sh now (k # ks) =
     (case read_check_data len timeout ri start now sh of
        (Pending, sh') \<Rightarrow> read_from start len timeout ri (env k sh') (t_now k) ks
      | r \<Rightarrow> r)"

definition shell_read ::
  "int option \<Rightarrow> int option \<Rightarrow> bool \<Rightarrow> shell \<Rightarrow> int \<Rightarrow> tick list \<Rightarrow> buffer outcome \<times> shell" where
  "shell_read len timeout ri sh now ticks = read_from now len timeout ri sh now ticks"

text \<open>
  \<open>_Shell.expect\<close>.  \<open>toString\<close> stands for \<open>Buffer.toString()\<close> (the buffer decoded
  to a string of UTF-16 code units) and \<open>match\<close> for \<open>String.match(regex)\<close>, giving
  \<open>m.index\<close> and the length of \<open>m[0]\<close> for the first match.
\<close>

fun expect_from ::
  "(buffer \<Rightarrow> 'text) \<Rightarrow> ('text \<Rightarrow> (nat \<times> nat) option) \<Rightarrow> int \<Rightarrow> int option \<Rightarrow> bool
     \<Rightarrow> shell \<Rightarrow> int \<Rightarrow> tick list \<Rightarrow> buffer outcome \<times> shell" where
  "expect_from toString match start timeout ri sh now ticks =
     (if (timeout \<noteq> None \<and> now - start > the timeout) \<or> readyState sh > 1 then
        let obj = \<lparr>reason = (if readyState sh < 2 then ''timeout'' else ''closed''), read_data = None\<rparr>
        in if ri then
             (case shell_read (Some 1024) (Some 100) True sh now ticks of
                (Resolve d, sh') \<Rightarrow> (Reject (obj\<lparr>read_data := Some d\<rparr>), sh')
              | (Reject f, sh') \<Rightarrow> (Reject (obj\<lparr>read_data := read_data f\<rparr>), sh')
              | (Pending, sh') \<Rightarrow> (Pending, sh'))
           else (Reject obj, sh)
      else
        (case match (toString (sh_buffer sh)) of
           Some (index, mlen) \<Rightarrow>
             (case shell_read (Some (int (index + mlen))) None False sh now ticks of
                (Resolve d, sh') \<Rightarrow> (Resolve d, sh')
              | (_, sh') \<Rightarrow> (Pending, sh'))
         | None \<Rightarrow>
             (case ticks of
                [] \<Rightarrow> (Pending, sh)
              | k # ks \<Rightarrow> expect_from toString match start timeout ri (env k sh) (t_now k) ks)))"

definition shell_expect ::
  "(buffer \<Rightarrow> 'text) \<Rightarrow> ('text \<Rightarrow> (nat \<times> nat) option) \<Rightarrow> int option \<Rightarrow> bool
     \<Rightarrow> shell \<Rightarrow> int \<Rightarrow> tick list \<Rightarrow> buffer outcome \<times> shell" where
  "shell_expect toString match timeout ri sh now ticks =
     expect_from toString match now timeout ri sh now ticks"

text \<open>
  A decoder and a matcher to run \<open>expect\<close> on.  \<open>utf8_toString\<close> decodes well-formed
  UTF-8 into UTF-16 code units (one unit for a sequence of one, two or three bytes,
  a surrogate pair for four) and puts U+FFFD for a byte that starts no well-formed
  sequence.  \<open>match_literal\<close> is the match of a regular expression that is a plain
  sequence of characters: the first position where the pattern occurs.
\<close>

definition is_cont :: "byte \<Rightarrow> bool" where
  "is_cont b = (0x80 \<le> unat b \<and> unat b \<le> 0xBF)"

fun utf8_toString :: "buffer \<Rightarrow> nat list" where
  "utf8_toString [] = []"
| "utf8_toString (b # bs) =
     (if unat b < 0x80 then unat b # utf8_toString bs
      else if 0xC2 \<le> unat b \<and> unat b \<le> 0xDF then
        (case bs of
           c # cs \<Rightarrow> if is_cont c
                     then ((unat b - 0xC0) * 64 + (unat c - 0x80)) # utf8_toString cs
                     else 0xFFFD # utf8_toString bs
         | _ \<Rightarrow> 0xFFFD # utf8_toString bs)
      else if 0xE0 \<le> unat b \<and> unat b \<le> 0xEF then
        (case bs of
           c # d # ds \<Rightarrow> if is_cont c \<and> is_cont d
                     then ((unat b - 0xE0) * 4096 + (unat c - 0x80) * 64 + (unat d - 0x80)) # utf8_toString ds
                     else 0xFFFD # utf8_toString bs
         | _ \<Rightarrow> 0xFFFD # utf8_toString bs)
      else if 0xF0 \<le> unat b \<and> unat b \<le> 0xF4 then
        (case bs of
           c # d # e # es \<Rightarrow> if is_cont c \<and> is_cont d \<and> is_cont e
                     then (let cp = (unat b - 0xF0) * 262144 + (unat c - 0x80) * 4096
                                      + (unat d - 0x80) * 64 + (unat e - 0x80) - 0x10000
                           in (0xD800 + cp div 1024) # (0xDC00 + cp mod 1024) # utf8_toString es)
                     else 0xFFFD # utf8_toString bs
         | _ \<Rightarrow> 0xFFFD # utf8_toString bs)
      else 0xFFFD # utf8_toString bs)"

fun find_from :: "nat list \<Rightarrow> nat list \<Rightarrow> nat \<Rightarrow> nat option" where
  "find_from pat [] i = (if pat = [] then Some i else None)"
| "find_from pat (c # cs) i =
     (if take (length pat) (c # cs) = pat then Some i else find_from pat cs (i + 1))"

definition match_literal :: "nat list \<Rightarrow> nat list \<Rightarrow> (nat \<times> nat) option" where
  "match_literal pat text = map_option (\<lambda>i. (i, length pat)) (find_from pat text 0)"

definition bytes_of :: "string \<Rightarrow> buffer" where
  "bytes_of s = map (\<lambda>c. of_nat (of_char c)) s"

definition units_of :: "string \<Rightarrow> nat list" where
  "units_of s = map of_char s"

section \<open>JavaScript values\<close>

datatype jsval =
    JUndefined
  | JNull
  | JBool bool
  | JNum int
  | JStr string
  | JObj "(string \<times> jsval) list"
  | JArr "jsval list"
  | JSet "jsval list"

datatype js_error = TypeError | Unhandled

definition truthy :: "jsval \<Rightarrow> bool" where
  "truthy v = (case v of
      JUndefined \<Rightarrow> False | JNull \<Rightarrow> False | JBool b \<Rightarrow> b
    | JNum n \<Rightarrow> n \<noteq> 0 | JStr s \<Rightarrow> s \<noteq> [] | _ \<Rightarrow> True)"

definition instanceof_Object :: "jsval \<Rightarrow> bool" where
  "instanceof_Object v = (case v of JObj _ \<Rightarrow> True | JArr _ \<Rightarrow> True | JSet _ \<Rightarrow> True | _ \<Rightarrow> False)"

definition instanceof_Set :: "jsval \<Rightarrow> bool" where
  "instanceof_Set v = (case v of JSet _ \<Rightarrow> True | _ \<Rightarrow> False)"

definition instanceof_Array :: "jsval \<Rightarrow> bool" where
  "instanceof_Array v = (case v of JArr _ \<Rightarrow> True | _ \<Rightarrow> False)"

definition index_of_key :: "string \<Rightarrow> nat \<Rightarrow> nat option" where
  "index_of_key key n = find (\<lambda>i. show_nat i = key) [0..<n]"

definition js_get :: "jsval \<Rightarrow> string \<Rightarrow> js_error + jsval" where
  "js_get v key = (case v of
      JUndefined \<Rightarrow> Inl TypeError
    | JNull \<Rightarrow> Inl TypeError
    | JObj kvs \<Rightarrow> Inr (case map_of kvs key of Some x \<Rightarrow> x | None \<Rightarrow> JUndefined)
    | JArr xs \<Rightarrow> Inr (if key = ''length'' then JNum (int (length xs))
                      else case index_of_key key (length xs) of Some i \<Rightarrow> xs ! i | None \<Rightarrow> JUndefined)
    | JStr s \<Rightarrow> Inr (if key = ''length'' then JNum (int (length s))
                      else case index_of_key key (length s) of Some i \<Rightarrow> JStr [s ! i] | None \<Rightarrow> JUndefined)
    | JSet xs \<Rightarrow> Inr (if key = ''size'' then JNum (int (length xs)) else JUndefined)
    | _ \<Rightarrow> Inr JUndefined)"

definition indexed :: "'a list \<Rightarrow> (string \<times> 'a) list" where
  "indexed xs = zip (map show_nat [0..<length xs]) xs"

definition Object_entries :: "jsval \<Rightarrow> js_error + (string \<times> jsval) list" where
  "Object_entries v = (case v of
      JUndefined \<Rightarrow> Inl TypeError
    | JNull \<Rightarrow> Inl TypeError
    | JObj kvs \<Rightarrow> Inr kvs
    | JArr xs \<Rightarrow> Inr (indexed xs)
    | JStr s \<Rightarrow> Inr (indexed (map (\<lambda>c. JStr [c]) s))
    | _ \<Rightarrow> Inr [])"

definition iterate :: "jsval \<Rightarrow> js_error + jsval list" where
  "iterate v = (case v of
      JArr xs \<Rightarrow> Inr xs
    | JSet xs \<Rightarrow> Inr xs
    | JStr s \<Rightarrow> Inr (map (\<lambda>c. JStr [c]) s)
    | _ \<Rightarrow> Inl TypeError)"

text \<open>The sentinel of the Set branch: the first candidate element that raises or matches decides.\<close>

fun scan_sentinel :: "(js_error + bool) list \<Rightarrow> bool" where
  "scan_sentinel [] = False"
| "scan_sentinel (Inl e # rs) = False"
| "scan_sentinel (Inr b # rs) = (if b then True else scan_sentinel rs)"

definition osum :: "(string \<times> jsval) list \<Rightarrow> nat" where
  "osum es = sum_list (map (\<lambda>(k, v). if instanceof_Object v then size v + 1 else 0) es)"

function compare_obj :: "jsval \<Rightarrow> jsval \<Rightarrow> js_error + bool"
  and for_entries :: "(string \<times> jsval) list \<Rightarrow> jsval \<Rightarrow> js_error + bool"
where
  "compare_obj obj1 obj2 =
     (case Object_entries obj1 of
        Inl e \<Rightarrow> Inl e
      | Inr es \<Rightarrow> for_entries es obj2)"
| "for_entries [] obj2 = Inr True"
| "for_entries ((key, val) # es) obj2 =
     (case js_get obj2 key of
        Inl e \<Rightarrow> Inl e
      | Inr o2k \<Rightarrow>
          if \<not> truthy o2k then Inr False
          else if instanceof_Object val then
            (case compare_obj val o2k of
               Inl e \<Rightarrow> Inl e
             | Inr b \<Rightarrow> if \<not> b then Inr False else for_entries es obj2)
          else if instanceof_Set val then
            (case val of
               JSet vs \<Rightarrow>
                 if list_all (\<lambda>v. case iterate o2k of
                                    Inl e \<Rightarrow> False
                                  | Inr v2s \<Rightarrow> scan_sentinel (map (\<lambda>v2. compare_obj v v2) v2s)) vs
                 then for_entries es obj2 else Inr False
             | _ \<Rightarrow> for_entries es obj2)
          else if instanceof_Array val then
            (case val of
               JArr vs \<Rightarrow>
                 if list_all (\<lambda>v. compare_obj v o2k = Inr True) vs
                    \<and> js_get o2k ''length'' = Inr (JNum (int (length vs)))
                 then for_entries es obj2 else Inr False
             | _ \<Rightarrow> for_entries es obj2)
          else if o2k \<noteq> val then Inr False
          else for_entries es obj2)"
  by pat_completeness auto

termination
proof -
  have osum_entries: "osum es \<le> size obj1" if "Object_entries obj1 = Inr es" for obj1 es
  proof (cases obj1)
    case (JObj kvs)
    from that JObj have "es = kvs" by (simp add: Object_entries_def)
    moreover have "osum kvs \<le> size_list (size_prod (\<lambda>_. 0) size) kvs"
      by (induction kvs) (auto simp: osum_def)
    ultimately show ?thesis using JObj by simp
  next
    case (JArr xs)
    from that JArr have es: "es = zip (map show_nat [0..<length xs]) xs"
      by (simp add: Object_entries_def indexed_def)
    have "sum_list (map (\<lambda>(k, v). if instanceof_Object v then size v + 1 else 0) (zip ks xs))
            \<le> size_list size xs" for ks :: "string list"
    proof (induction xs arbitrary: ks)
      case Nil
      show ?case by simp
    next
      case (Cons a xs)
      show ?case
      proof (cases ks)
        case Nil
        then show ?thesis by simp
      next
        case (Cons k ks')
        then show ?thesis using Cons.IH [of ks'] by simp
      qed
    qed
    from this [of "map show_nat [0..<length xs]"] show ?thesis
      using JArr es by (simp add: osum_def le_SucI)
  next
    case (JStr s)
    from that JStr have es: "es = zip (map show_nat [0..<length s]) (map (\<lambda>c. JStr [c]) s)"
      by (simp add: Object_entries_def indexed_def)
    have "sum_list (map (\<lambda>(k, v). if instanceof_Object v then size v + 1 else 0)
            (zip ks (map (\<lambda>c. JStr [c]) s))) = 0" for ks :: "string list"
    proof (induction s arbitrary: ks)
      case Nil
      show ?case by simp
    next
      case (Cons c s)
      show ?case
      proof (cases ks)
        case Nil
        then show ?thesis by simp
      next
        case (Cons k ks')
        then show ?thesis using Cons.IH [of ks'] by (simp add: instanceof_Object_def)
      qed
    qed
    from this [of "map show_nat [0..<length s]"] have "osum es = 0"
      unfolding osum_def es .
    then show ?thesis by simp
  qed (use that in \<open>auto simp: Object_entries_def osum_def\<close>)
  show ?thesis
  proof (relation "(\<lambda>x. case x of Inl (o1, o2) \<Rightarrow> size o1 + 1 | Inr (es, o2) \<Rightarrow> osum es)
                     <*mlex*> measure (\<lambda>x. case x of Inl _ \<Rightarrow> 0 | Inr (es, o2) \<Rightarrow> length es + 1)",
         goal_cases)
    case 1
    show ?case by (simp add: wf_mlex)
  next
    case (2 obj1 obj2 es)
    then show ?case using osum_entries [of obj1 es] by (simp add: mlex_less)
  next
    case 3
    then show ?case by (intro mlex_leq) (simp_all add: osum_def)
  next
    case 4
    then show ?case by (intro mlex_leq) (simp_all add: osum_def)
  qed (auto simp: osum_def instanceof_Object_def instanceof_Set_def instanceof_Array_def
         intro!: mlex_leq split: jsval.splits)
qed

declare compare_obj.simps [simp del]

definition nullish :: "jsval \<Rightarrow> bool" where
  "nullish v = (v = JUndefined \<or> v = JNull)"

section \<open>Promises, errors and string conversion\<close>

datatype js_exn = SocketError string | ServerError string | ValueError string | TimeoutError string

text \<open>What a promise settles with, or an event is emitted with: a value or an \<open>Error\<close> object.\<close>

datatype payload = Data jsval | Exn js_exn

definition instanceof_Error :: "payload \<Rightarrow> bool" where
  "instanceof_Error a = (case a of Exn _ \<Rightarrow> True | Data _ \<Rightarrow> False)"

text \<open>The state of a promise (\<open>_Deferred\<close>): settling a settled promise changes nothing.\<close>

datatype 'a deferred = Unsettled | Fulfilled 'a | Failed 'a

definition resolve :: "'a deferred \<Rightarrow> 'a \<Rightarrow> 'a deferred" where
  "resolve d v = (case d of Unsettled \<Rightarrow> Fulfilled v | _ \<Rightarrow> d)"

definition reject :: "'a deferred \<Rightarrow> 'a \<Rightarrow> 'a deferred" where
  "reject d v = (case d of Unsettled \<Rightarrow> Failed v | _ \<Rightarrow> d)"

definition resolved :: "'a deferred \<Rightarrow> bool" where
  "resolved d = (case d of Fulfilled _ \<Rightarrow> True | _ \<Rightarrow> False)"

definition settled :: "'a deferred \<Rightarrow> bool" where
  "settled d = (case d of Unsettled \<Rightarrow> False | _ \<Rightarrow> True)"

text \<open>
  Conversion of a value to a string, as string concatenation and the use of a value
  as an event name do it.  Numbers are integers here.
\<close>

fun join_comma :: "string list \<Rightarrow> string" where
  "join_comma [] = []"
| "join_comma [s] = s"
| "join_comma (s # t # ss) = s @ '','' @ join_comma (t # ss)"

definition show_int :: "int \<Rightarrow> string" where
  "show_int n = (if n < 0 then ''-'' @ show_nat (nat (- n)) else show_nat (nat n))"

fun js_toString :: "jsval \<Rightarrow> string" where
  "js_toString JUndefined = ''undefined''"
| "js_toString JNull = ''null''"
| "js_toString (JBool b) = (if b then ''true'' else ''false'')"
| "js_toString (JNum n) = show_int n"
| "js_toString (JStr s) = s"
| "js_toString (JObj kvs) = ''[object Object]''"
| "js_toString (JArr xs) =
     join_comma (map (\<lambda>x. if x = JUndefined \<or> x = JNull then [] else js_toString x) xs)"
| "js_toString (JSet xs) = ''[object Set]''"

text \<open>
  Loose equality \<open>v == s\<close> of a value with a string \<open>s\<close> that is not a numeric literal
  (every string this library compares with is a word or a request id): a string is
  equal to itself, an object to its string conversion, nothing else is equal.
\<close>

definition loose_eq :: "jsval \<Rightarrow> string \<Rightarrow> bool" where
  "loose_eq v s = (case v of
      JStr x \<Rightarrow> x = s
    | JObj _ \<Rightarrow> js_toString v = s
    | JArr _ \<Rightarrow> js_toString v = s
    | JSet _ \<Rightarrow> js_toString v = s
    | _ \<Rightarrow> False)"

text \<open>\<open>a || b\<close> on values.\<close>

definition js_or :: "jsval \<Rightarrow> jsval \<Rightarrow> jsval" where
  "js_or a b = (if truthy a then a else b)"

text \<open>
  \<open>Object.assign({}, data, extra)\<close> on object literals: the keys of \<open>data\<close> in their
  order, a key of \<open>extra\<close> replacing the value of the same key or coming after.
\<close>

fun obj_set :: "(string \<times> 'a) list \<Rightarrow> string \<Rightarrow> 'a \<Rightarrow> (string \<times> 'a) list" where
  "obj_set [] k v = [(k, v)]"
| "obj_set ((k', v') # kvs) k v = (if k' = k then (k, v) # kvs else (k', v') # obj_set kvs k v)"

definition obj_assign :: "jsval \<Rightarrow> (string \<times> jsval) list \<Rightarrow> jsval" where
  "obj_assign data extra =
     JObj (fold (\<lambda>(k, v) kvs. obj_set kvs k v) extra
             (case Object_entries data of Inr kvs \<Rightarrow> kvs | Inl _ \<Rightarrow> []))"

section \<open>Session: correlated requests and the event emitter\<close>

text \<open>
  A request made through \<open>_send_command\<close> or \<open>_send_command_no_response_id\<close>: its
  id (or action name), the promise \<open>p\<close> settled by its event listener, the timeout
  given, and the promise returned to the caller (\<open>p\<close> itself, or the race of \<open>p\<close>
  against the timer).
\<close>

record request =
  rq_id :: string
  rq_p :: "payload deferred"
  rq_timeout :: "int option"
  rq_result :: "payload deferred"

text \<open>
  The listeners this library registers on the session's event emitter: the
  \<open>once\<close> callback of \<open>_send_command\<close> (it closes over the request and its id), the
  one of \<open>_send_command_no_response_id\<close>, a callback given to \<open>on_close\<close>, and the
  wrapper \<open>f2\<close> of \<open>listen_to_events\<close> around a callback and a filter.  A caller's
  callback is a number; calling it is recorded.
\<close>

datatype listener =
    Waiter nat string
  | WaiterNoId nat
  | CloseCallback nat
  | EventCallback nat jsval

type_synonym registration = "string \<times> bool \<times> listener"

record session =
  s_url :: string
  s_alive :: bool
  s_command_id :: nat
  s_inflight :: "string list"
  s_eventer :: "registration list"
  s_requests :: "request list"
  s_socket_open :: "payload deferred"
  s_initialized :: "payload deferred"
  s_server_info :: jsval
  s_user_info :: jsval
  s_currentDomain :: jsval
  s_file_tunnels :: "(string \<times> nat) list"
  s_shell_tunnels :: "(string \<times> nat) list"
  s_smart_shell_tunnels :: "(string \<times> nat) list"
  s_sent :: "jsval list"
  s_sock_close_calls :: nat
  s_tunnel_close_calls :: "nat list"
  s_calls :: "(nat \<times> payload) list"

text \<open>The state the constructor leaves, for the url it has computed.\<close>

definition new_session :: "string \<Rightarrow> session" where
  "new_session u =
     \<lparr>s_url = u, s_alive = False, s_command_id = 0, s_inflight = [], s_eventer = [],
      s_requests = [], s_socket_open = Unsettled, s_initialized = Unsettled,
      s_server_info = JObj [], s_user_info = JObj [], s_currentDomain = JUndefined,
      s_file_tunnels = [], s_shell_tunnels = [], s_smart_shell_tunnels = [],
      s_sent = [], s_sock_close_calls = 0, s_tunnel_close_calls = [], s_calls = []\<rparr>"

text \<open>Settling the promise \<open>p\<close> of a request; the promise returned to the caller follows.\<close>

definition settle_request :: "nat \<Rightarrow> payload \<Rightarrow> session \<Rightarrow> session" where
  "settle_request h a s =
     (if h < length (s_requests s) then
        let r = s_requests s ! h;
            r = (if instanceof_Error a
                 then r\<lparr>rq_p := reject (rq_p r) a, rq_result := reject (rq_result r) a\<rparr>
                 else r\<lparr>rq_p := resolve (rq_p r) a, rq_result := resolve (rq_result r) a\<rparr>)
        in s\<lparr>s_requests := (s_requests s)[h := r]\<rparr>
      else s)"

text \<open>
  What a listener does when called with an argument.  The filter of an event
  callback is compared with \<open>_compare_obj\<close>, whose exception is not caught.
\<close>

definition payload_value :: "payload \<Rightarrow> jsval" where
  "payload_value a = (case a of Data d \<Rightarrow> d | Exn e \<Rightarrow> JObj [])"

fun invoke :: "listener \<Rightarrow> payload \<Rightarrow> session \<Rightarrow> js_error + session" where
  "invoke (Waiter h ident) a s =
     Inr (settle_request h a (s\<lparr>s_inflight := removeAll ident (s_inflight s)\<rparr>))"
| "invoke (WaiterNoId h) a s = Inr (settle_request h a s)"
| "invoke (CloseCallback f) a s = Inr (s\<lparr>s_calls := s_calls s @ [(f, a)]\<rparr>)"
| "invoke (EventCallback f flt) a s =
     (if truthy flt then
        (case compare_obj flt (payload_value a) of
           Inl e \<Rightarrow> Inl e
         | Inr b \<Rightarrow> if b then Inr (s\<lparr>s_calls := s_calls s @ [(f, a)]\<rparr>) else Inr s)
      else Inr (s\<lparr>s_calls := s_calls s @ [(f, a)]\<rparr>))"

fun invoke_all :: "listener list \<Rightarrow> payload \<Rightarrow> session \<Rightarrow> js_error + session" where
  "invoke_all [] a s = Inr s"
| "invoke_all (l # ls) a s =
     (case invoke l a s of Inl e \<Rightarrow> Inl e | Inr s' \<Rightarrow> invoke_all ls a s')"

definition listener_handle :: "listener \<Rightarrow> nat option" where
  "listener_handle l = (case l of Waiter h i \<Rightarrow> Some h | WaiterNoId h \<Rightarrow> Some h | _ \<Rightarrow> None)"

definition listener_id :: "listener \<Rightarrow> string option" where
  "listener_id l = (case l of Waiter h i \<Rightarrow> Some i | _ \<Rightarrow> None)"

definition is_event_callback :: "listener \<Rightarrow> bool" where
  "is_event_callback l = (case l of EventCallback f flt \<Rightarrow> True | _ \<Rightarrow> False)"

text \<open>The listeners called by an \<open>emit\<close> under a name.\<close>

definition called :: "string \<Rightarrow> session \<Rightarrow> listener list" where
  "called name s = map (\<lambda>(n, once, l). l) (filter (\<lambda>(n, once, l). n = name) (s_eventer s))"

text \<open>
  \<open>EventEmitter.emit\<close>: the listeners registered under the name are called in the
  order of registration, each \<open>once\<close> listener being removed; an \<open>error\<close> event
  without a listener is thrown.
\<close>

definition emit :: "string \<Rightarrow> payload \<Rightarrow> session \<Rightarrow> js_error + session" where
  "emit name a s =
     (let ls = called name s
      in if name = ''error'' \<and> ls = [] then Inl Unhandled
         else invoke_all ls a
                (s\<lparr>s_eventer := filter (\<lambda>(n, once, l). \<not> (n = name \<and> once)) (s_eventer s)\<rparr>))"

text \<open>
  \<open>for (let id of this._inflight) this._eventer.emit(id, err)\<close>.  The loop runs
  over the set while listeners delete from it: an id deleted before its turn is
  not visited.
\<close>

fun emit_inflight :: "string list \<Rightarrow> payload \<Rightarrow> session \<Rightarrow> js_error + session" where
  "emit_inflight [] a s = Inr s"
| "emit_inflight (ident # ids) a s =
     (if ident \<in> set (s_inflight s) then
        (case emit ident a s of Inl e \<Rightarrow> Inl e | Inr s' \<Rightarrow> emit_inflight ids a s')
      else emit_inflight ids a s)"

text \<open>The socket's \<open>open\<close>, \<open>close\<close> and \<open>error\<close> handlers installed by \<open>_initialize\<close>.\<close>

definition on_open :: "session \<Rightarrow> session" where
  "on_open s = s\<lparr>s_socket_open := resolve (s_socket_open s) (Data JUndefined), s_alive := True\<rparr>"

definition close_tunnels :: "session \<Rightarrow> session" where
  "close_tunnels s =
     s\<lparr>s_tunnel_close_calls := s_tunnel_close_calls s
          @ map snd (s_file_tunnels s) @ map snd (s_shell_tunnels s) @ map snd (s_smart_shell_tunnels s)\<rparr>"

definition on_close :: "session \<Rightarrow> js_error + session" where
  "on_close s =
     (let s = (if \<not> resolved (s_initialized s)
               then s\<lparr>s_initialized := reject (s_initialized s) (Data (JStr ''Closed''))\<rparr> else s);
          s = s\<lparr>s_alive := False\<rparr>
      in case emit_inflight (s_inflight s) (Exn (SocketError ''Socket Closed'')) s of
           Inl e \<Rightarrow> Inl e
         | Inr s \<Rightarrow>
             (case emit ''close'' (Exn (SocketError ''Socket Closed'')) s of
                Inl e \<Rightarrow> Inl e
              | Inr s \<Rightarrow> Inr (close_tunnels s)))"

definition on_error :: "jsval \<Rightarrow> session \<Rightarrow> js_error + session" where
  "on_error code s =
     (let s = s\<lparr>s_socket_open := reject (s_socket_open s) (Data code)\<rparr>;
          s = s\<lparr>s_initialized := reject (s_initialized s) (Data code)\<rparr>;
          s = s\<lparr>s_alive := False\<rparr>
      in case emit_inflight (s_inflight s) (Exn (SocketError ''Socket Error'')) s of
           Inl e \<Rightarrow> Inl e
         | Inr s \<Rightarrow> emit ''close'' (Exn (SocketError ''Socket Error'')) s)"

text \<open>
  \<open>_receive_message\<close>.  \<open>json_parse\<close> stands for \<open>JSON.parse\<close>: \<open>None\<close> when it
  throws.  The \<open>raw\<close> event is emitted with the still empty \<open>data\<close>.
\<close>

definition receive_message :: "(buffer \<Rightarrow> jsval option) \<Rightarrow> buffer \<Rightarrow> session \<Rightarrow> js_error + session" where
  "receive_message json_parse raw_data s =
     (case emit ''raw'' (Data JNull) s of
        Inl e \<Rightarrow> Inl e
      | Inr s \<Rightarrow>
         (case json_parse raw_data of
            None \<Rightarrow> Inr s
          | Some data \<Rightarrow>
             (case js_get data ''action'' of
                Inl e \<Rightarrow> Inl e
              | Inr action \<Rightarrow>
                 if loose_eq action ''serverinfo'' then
                   (case js_get data ''serverinfo'' of
                      Inl e \<Rightarrow> Inl e
                    | Inr info \<Rightarrow>
                       (case js_get info ''domain'' of
                          Inl e \<Rightarrow> Inl e
                        | Inr domain \<Rightarrow> Inr (s\<lparr>s_currentDomain := domain, s_server_info := info\<rparr>)))
                 else if loose_eq action ''userinfo'' then
                   (case js_get data ''userinfo'' of
                      Inl e \<Rightarrow> Inl e
                    | Inr info \<Rightarrow>
                       Inr (s\<lparr>s_user_info := info,
                              s_initialized := resolve (s_initialized s) (Data JUndefined)\<rparr>))
                 else
                   (case (if loose_eq action ''event'' \<or> loose_eq action ''msg''
                             \<or> loose_eq action ''interuser''
                          then emit ''server_event'' (Data data) s else Inr s) of
                      Inl e \<Rightarrow> Inl e
                    | Inr s \<Rightarrow>
                       (case (js_get data ''responseid'', js_get data ''tag'') of
                          (Inr responseid, Inr tag) \<Rightarrow>
                            if truthy (js_or responseid tag)
                            then emit (js_toString (js_or responseid tag)) (Data data) s
                            else emit (js_toString action) (Data data) s
                        | _ \<Rightarrow> Inl TypeError)))))"

text \<open>
  \<open>_send_command\<close>.  The loop that looks for an id not in flight need not end, so
  it is a partial function.
\<close>

definition command_name :: "string \<Rightarrow> nat \<Rightarrow> string" where
  "command_name name n = ''meshctrl_'' @ name @ ''_'' @ show_nat n"

partial_function (option) probe_id :: "string list \<Rightarrow> string \<Rightarrow> nat \<Rightarrow> (string \<times> nat) option" where
  "probe_id inflight name command_id =
     (let (v, command_id) = get_command_id command_id;
          ident = command_name name v
      in if ident \<in> set inflight then probe_id inflight name command_id
         else Some (ident, command_id))"

definition new_request :: "string \<Rightarrow> int option \<Rightarrow> request" where
  "new_request ident timeout =
     \<lparr>rq_id = ident, rq_p = Unsettled, rq_timeout = timeout, rq_result = Unsettled\<rparr>"

definition rejected_request :: "string \<Rightarrow> int option \<Rightarrow> request" where
  "rejected_request ident timeout =
     \<lparr>rq_id = ident, rq_p = Failed (Exn (SocketError ''Socket Closed'')), rq_timeout = timeout,
      rq_result = Failed (Exn (SocketError ''Socket Closed''))\<rparr>"

text \<open>The result is the new state and the index of the request, which stands for the promise returned.\<close>

definition send_command :: "jsval \<Rightarrow> string \<Rightarrow> int option \<Rightarrow> session \<Rightarrow> (session \<times> nat) option" where
  "send_command data name timeout s =
     (if \<not> s_alive s then
        Some (s\<lparr>s_requests := s_requests s @ [rejected_request [] timeout]\<rparr>, length (s_requests s))
      else
        (case probe_id (s_inflight s) name (s_command_id s) of
           None \<Rightarrow> None
         | Some (ident, command_id) \<Rightarrow>
             let h = length (s_requests s);
                 s = s\<lparr>s_command_id := command_id\<rparr>;
                 s = s\<lparr>s_inflight := s_inflight s @ [ident]\<rparr>;
                 s = s\<lparr>s_requests := s_requests s @ [new_request ident timeout],
                        s_eventer := s_eventer s @ [(ident, True, Waiter h ident)]\<rparr>;
                 s = s\<lparr>s_sent := s_sent s
                        @ [obj_assign data [(''tag'', JStr ident), (''responseid'', JStr ident)]]\<rparr>
             in Some (s, h)))"

definition send_command_no_response_id :: "jsval \<Rightarrow> int option \<Rightarrow> session \<Rightarrow> js_error + session \<times> nat" where
  "send_command_no_response_id data timeout s =
     (if \<not> s_alive s then
        Inr (s\<lparr>s_requests := s_requests s @ [rejected_request [] timeout]\<rparr>, length (s_requests s))
      else
        (case js_get data ''action'' of
           Inl e \<Rightarrow> Inl e
         | Inr action \<Rightarrow>
             let h = length (s_requests s);
                 s = s\<lparr>s_requests := s_requests s @ [new_request (js_toString action) timeout],
                        s_eventer := s_eventer s @ [(js_toString action, True, WaiterNoId h)]\<rparr>;
                 s = s\<lparr>s_sent := s_sent s @ [data]\<rparr>
             in Inr (s, h)))"

text \<open>The timer of \<open>Promise.race\<close> fires: the promise returned rejects if it is still pending.\<close>

definition timer_fires :: "nat \<Rightarrow> session \<Rightarrow> session" where
  "timer_fires h s =
     (if h < length (s_requests s) \<and> rq_timeout (s_requests s ! h) \<noteq> None then
        let r = s_requests s ! h;
            r = r\<lparr>rq_result := reject (rq_result r)
                   (Exn (TimeoutError (''Command '' @ rq_id r @ '' timed out'')))\<rparr>
        in s\<lparr>s_requests := (s_requests s)[h := r]\<rparr>
      else s)"

text \<open>\<open>on_close\<close>, \<open>listen_to_events\<close> and \<open>stop_listening_to_events\<close> of the session.\<close>

definition add_close_callback :: "nat \<Rightarrow> session \<Rightarrow> session" where
  "add_close_callback f s = s\<lparr>s_eventer := s_eventer s @ [(''close'', False, CloseCallback f)]\<rparr>"

definition listen_to_events :: "nat \<Rightarrow> jsval \<Rightarrow> session \<Rightarrow> session" where
  "listen_to_events f flt s =
     s\<lparr>s_eventer := s_eventer s @ [(''server_event'', False, EventCallback f flt)]\<rparr>"

fun remove_last :: "'a \<Rightarrow> 'a list \<Rightarrow> 'a list" where
  "remove_last x xs = rev (remove1 x (rev xs))"

definition stop_listening_to_events :: "nat \<Rightarrow> jsval \<Rightarrow> session \<Rightarrow> session" where
  "stop_listening_to_events f flt s =
     s\<lparr>s_eventer := remove_last (''server_event'', False, EventCallback f flt) (s_eventer s)\<rparr>"

text \<open>
  The tunnel factories store an initialised tunnel (a number here) in one of the
  three caches under a key; \<open>close\<close> closes the socket.
\<close>

datatype cache = FileTunnels | ShellTunnels | SmartShellTunnels

definition cache_tunnel :: "cache \<Rightarrow> string \<Rightarrow> nat \<Rightarrow> session \<Rightarrow> session" where
  "cache_tunnel c key t s = (case c of
      FileTunnels \<Rightarrow> s\<lparr>s_file_tunnels := obj_set (s_file_tunnels s) key t\<rparr>
    | ShellTunnels \<Rightarrow> s\<lparr>s_shell_tunnels := obj_set (s_shell_tunnels s) key t\<rparr>
    | SmartShellTunnels \<Rightarrow> s\<lparr>s_smart_shell_tunnels := obj_set (s_smart_shell_tunnels s) key t\<rparr>)"

definition session_close :: "session \<Rightarrow> session" where
  "session_close s = s\<lparr>s_sock_close_calls := s_sock_close_calls s + 1\<rparr>"

text \<open>What can happen to a session, and the states it reaches from the constructor's.\<close>

datatype session_event =
    Open
  | Close
  | Error jsval
  | Message buffer
  | SendCommand jsval string "int option"
  | SendCommandNoResponseId jsval "int option"
  | TimerFires nat
  | OnClose nat
  | ListenToEvents nat jsval
  | StopListeningToEvents nat jsval
  | CacheTunnel cache string nat
  | CallClose

definition session_step :: "(buffer \<Rightarrow> jsval option) \<Rightarrow> session_event \<Rightarrow> session \<Rightarrow> session option" where
  "session_step json_parse e s = (case e of
      Open \<Rightarrow> Some (on_open s)
    | Close \<Rightarrow> (case on_close s of Inl _ \<Rightarrow> None | Inr s' \<Rightarrow> Some s')
    | Error code \<Rightarrow> (case on_error code s of Inl _ \<Rightarrow> None | Inr s' \<Rightarrow> Some s')
    | Message raw \<Rightarrow> (case receive_message json_parse raw s of Inl _ \<Rightarrow> None | Inr s' \<Rightarrow> Some s')
    | SendCommand data name timeout \<Rightarrow> map_option fst (send_command data name timeout s)
    | SendCommandNoResponseId data timeout \<Rightarrow>
        (case send_command_no_response_id data timeout s of Inl _ \<Rightarrow> None | Inr (s', h) \<Rightarrow> Some s')
    | TimerFires h \<Rightarrow> Some (timer_fires h s)
    | OnClose f \<Rightarrow> Some (add_close_callback f s)
    | ListenToEvents f flt \<Rightarrow> Some (listen_to_events f flt s)
    | StopListeningToEvents f flt \<Rightarrow> Some (stop_listening_to_events f flt s)
    | CacheTunnel c key t \<Rightarrow> Some (cache_tunnel c key t s)
    | CallClose \<Rightarrow> Some (session_close s))"

inductive reachable :: "(buffer \<Rightarrow> jsval option) \<Rightarrow> string \<Rightarrow> session \<Rightarrow> bool"
  for json_parse :: "buffer \<Rightarrow> jsval option" and u :: string where
  init: "reachable json_parse u (new_session u)"
| step: "reachable json_parse u s \<Longrightarrow> session_step json_parse e s = Some s' \<Longrightarrow> reachable json_parse u s'"

text \<open>
  The correlated requests that are pending: the pairs of a request and its id for which
  the listener of \<open>_send_command\<close> is registered.  The requests whose listener (of
  either kind) is called by an \<open>emit\<close> under a name.
\<close>

definition waiting :: "session \<Rightarrow> (nat \<times> string) set" where
  "waiting s = {(h, i). \<exists>n once. (n, once, Waiter h i) \<in> set (s_eventer s)}"

definition waiting_no_id :: "session \<Rightarrow> nat set" where
  "waiting_no_id s = {h. \<exists>n once. (n, once, WaiterNoId h) \<in> set (s_eventer s)}"

definition settle_p :: "payload \<Rightarrow> payload deferred \<Rightarrow> payload deferred" where
  "settle_p a d = (if instanceof_Error a then reject d a else resolve d a)"

text \<open>
  The event name under which \<open>_receive_message\<close> emits a parsed message that is
  neither \<open>serverinfo\<close> nor \<open>userinfo\<close>.
\<close>

definition reply_key :: "jsval \<Rightarrow> string" where
  "reply_key data =
     (case (js_get data ''responseid'', js_get data ''tag'', js_get data ''action'') of
        (Inr responseid, Inr tag, Inr action) \<Rightarrow>
          if truthy (js_or responseid tag) then js_toString (js_or responseid tag)
          else js_toString action
      | _ \<Rightarrow> [])"

definition bootstrap_message :: "jsval \<Rightarrow> bool" where
  "bootstrap_message data =
     (case js_get data ''action'' of
        Inr action \<Rightarrow> loose_eq action ''serverinfo'' \<or> loose_eq action ''userinfo''
      | Inl _ \<Rightarrow> False)"

text \<open>The invariant of the session's table of pending requests.\<close>

definition session_inv :: "session \<Rightarrow> bool" where
  "session_inv s \<longleftrightarrow>
     (\<forall>n once h i. (n, once, Waiter h i) \<in> set (s_eventer s) \<longrightarrow> n = i \<and> once)
   \<and> (\<forall>h h' i. (h, i) \<in> waiting s \<longrightarrow> (h', i) \<in> waiting s \<longrightarrow> h = h')
   \<and> (\<forall>h i i'. (h, i) \<in> waiting s \<longrightarrow> (h, i') \<in> waiting s \<longrightarrow> i = i')
   \<and> snd ` waiting s = set (s_inflight s)
   \<and> (\<forall>h i. (h, i) \<in> waiting s \<longrightarrow>
         h < length (s_requests s) \<and> rq_p (s_requests s ! h) = Unsettled
         \<and> rq_id (s_requests s ! h) = i)
   \<and> (\<forall>h \<in> waiting_no_id s. h < length (s_requests s) \<and> h \<notin> fst ` waiting s)
   \<and> (\<forall>h i. (h, i) \<in> waiting s \<longrightarrow> take 9 i = ''meshctrl_'')
   \<and> (\<forall>n once f flt. (n, once, EventCallback f flt) \<in> set (s_eventer s) \<longrightarrow> n = ''server_event'')"

text \<open>
  The state a loop \<open>for (let id of this._inflight) emit(id, a)\<close> over the ids leaves,
  compared with the state before: used to prove what the \<open>close\<close> handler does.
\<close>

definition fanned :: "string list \<Rightarrow> payload \<Rightarrow> session \<Rightarrow> session \<Rightarrow> bool" where
  "fanned ids a s s' \<longleftrightarrow>
     session_inv s'
   \<and> s_inflight s' = filter (\<lambda>i. i \<notin> set ids) (s_inflight s)
   \<and> (\<forall>h i. (h, i) \<in> waiting s' \<longleftrightarrow> (h, i) \<in> waiting s \<and> i \<notin> set ids)
   \<and> (\<forall>h i. (h, i) \<in> waiting s \<longrightarrow> i \<in> set ids \<longrightarrow>
         rq_p (s_requests s' ! h) = settle_p a Unsettled)
   \<and> (\<forall>k < length (s_requests s).
         rq_p (s_requests s' ! k) = rq_p (s_requests s ! k)
         \<or> rq_p (s_requests s' ! k) = settle_p a (rq_p (s_requests s ! k)))
   \<and> (\<forall>n l. (n, False, l) \<in> set (s_eventer s') \<longleftrightarrow> (n, False, l) \<in> set (s_eventer s))
   \<and> s_alive s' = s_alive s \<and> s_initialized s' = s_initialized s
   \<and> s_file_tunnels s' = s_file_tunnels s
   \<and> s_shell_tunnels s' = s_shell_tunnels s
   \<and> s_smart_shell_tunnels s' = s_smart_shell_tunnels s
   \<and> s_tunnel_close_calls s' = s_tunnel_close_calls s
   \<and> length (s_requests s') = length (s_requests s)
   \<and> (\<forall>h i. (h, i) \<in> waiting s \<longrightarrow> i \<in> set ids \<longrightarrow>
         rq_result (s_requests s' ! h) = settle_p a (rq_result (s_requests s ! h)))
   \<and> (\<forall>k < length (s_requests s).
         rq_result (s_requests s' ! k) = rq_result (s_requests s ! k)
         \<or> rq_result (s_requests s' ! k) = settle_p a (rq_result (s_requests s ! k)))"

text \<open>A run of events from a state; a table of frames standing for \<open>JSON.parse\<close> on them.\<close>

fun session_run :: "(buffer \<Rightarrow> jsval option) \<Rightarrow> session_event list \<Rightarrow> session \<Rightarrow> session option" where
  "session_run json_parse [] s = Some s"
| "session_run json_parse (e # es) s =
     (case session_step json_parse e s of None \<Rightarrow> None | Some s' \<Rightarrow> session_run json_parse es s')"

definition parse_table :: "(string \<times> jsval) list \<Rightarrow> buffer \<Rightarrow> jsval option" where
  "parse_table tab raw = map_of (map (\<lambda>(text, v). (bytes_of text, v)) tab) raw"

text \<open>
  A session to run the functions on: the socket opens, two correlated requests
  are sent (the second with a timeout), a close callback is registered and a
  files tunnel is cached; then the reply to the second request arrives.
\<close>

definition demo_url :: string where
  "demo_url = ''wss://example/control.ashx''"

definition demo_reply :: jsval where
  "demo_reply = JObj [(''action'', JStr ''users''), (''responseid'', JStr ''meshctrl_list_users_2'')]"

definition demo_parse :: "buffer \<Rightarrow> jsval option" where
  "demo_parse = parse_table [(''reply2'', demo_reply)]"

definition demo_events :: "session_event list" where
  "demo_events =
     [Open,
      SendCommand (JObj [(''action'', JStr ''users'')]) ''list_users'' None,
      SendCommand (JObj [(''action'', JStr ''users'')]) ''list_users'' (Some 1000),
      OnClose 7,
      CacheTunnel FileTunnels ''node//a'' 3]"

definition demo_state :: session where
  "demo_state =
     \<lparr>s_url = demo_url, s_alive = True, s_command_id = 2,
      s_inflight = [''meshctrl_list_users_1'', ''meshctrl_list_users_2''],
      s_eventer = [(''meshctrl_list_users_1'', True, Waiter 0 ''meshctrl_list_users_1''),
                   (''meshctrl_list_users_2'', True, Waiter 1 ''meshctrl_list_users_2''),
                   (''close'', False, CloseCallback 7)],
      s_requests = [new_request ''meshctrl_list_users_1'' None,
                    new_request ''meshctrl_list_users_2'' (Some 1000)],
      s_socket_open = Fulfilled (Data JUndefined), s_initialized = Unsettled,
      s_server_info = JObj [], s_user_info = JObj [], s_currentDomain = JUndefined,
      s_file_tunnels = [(''node//a'', 3)], s_shell_tunnels = [], s_smart_shell_tunnels = [],
      s_sent = [JObj [(''action'', JStr ''users''), (''tag'', JStr ''meshctrl_list_users_1''),
                      (''responseid'', JStr ''meshctrl_list_users_1'')],
                JObj [(''action'', JStr ''users''), (''tag'', JStr ''meshctrl_list_users_2''),
                      (''responseid'', JStr ''meshctrl_list_users_2'')]],
      s_sock_close_calls = 0, s_tunnel_close_calls = [], s_calls = []\<rparr>"

definition demo_session :: session where
  "demo_session = the (session_run demo_parse demo_events (new_session demo_url))"


definition demo_after_close :: session where
  "demo_after_close = projr (on_close demo_session)"

section \<open>Properties of the request-id counters\<close>

lemma get_request_id_fixed: "request_id < id_modulus \<Longrightarrow> get_request_id request_id = (request_id, request_id)"
  by (simp add: get_request_id_def post_increment_def)

lemma request_id_calls_fixed:
  "request_id < id_modulus \<Longrightarrow> request_id_calls n request_id = (replicate n request_id, request_id)"
  by (induction n) (simp_all add: get_request_id_fixed)

lemma get_command_id_advances: "snd (get_command_id c) \<noteq> c"
proof (cases "c + 1 < id_modulus")
  case True
  then show ?thesis by (simp add: get_command_id_def)
next
  case False
  have "(c + 1) mod id_modulus < id_modulus"
    by (simp add: id_modulus_def)
  moreover have "(c + 1) mod id_modulus = 0" if "c + 1 = id_modulus"
    using that by simp
  moreover have "0 < c" if "c + 1 = id_modulus"
    using that by (simp add: id_modulus_def)
  ultimately show ?thesis
    using False by (cases "c + 1 = id_modulus") (auto simp: get_command_id_def Let_def)
qed

text \<open>
  C10.  The request-id counter of a files tunnel never advances: starting from the
  constructor's value 0, every one of any number of successive calls of
  \<open>_get_request_id\<close> returns 0 and leaves the counter at 0, so every upload request
  is named \<open>upload_0\<close> (and every download request \<open>download_0\<close>); the session's
  command counter, in contrast, changes at every call.
\<close>

theorem files_request_id_never_advances:
  "request_id_calls n 0 = (replicate n 0, 0)
   \<and> upload_request_id (fst (get_request_id 0)) = ''upload_0''
   \<and> download_request_id (fst (get_request_id 0)) = ''download_0''
   \<and> snd (get_command_id c) \<noteq> c"
proof -
  have z: "(0::nat) < id_modulus" by (simp add: id_modulus_def)
  have s: "show_nat 0 = ''0''" by code_simp
  show ?thesis
    using request_id_calls_fixed [OF z, of n] get_request_id_fixed [OF z] get_command_id_advances [of c]
    by (simp add: upload_request_id_def download_request_id_def s)
qed

section \<open>Properties of the upload framing\<close>

lemma upload_copy:
  assumes "length c \<le> 65564"
  shows "buf_copy c (Buffer_alloc 65565) 1 = 0 # c @ replicate (65564 - length c) 0"
proof -
  have m: "min (length c) 65564 = length c" using assms by simp
  have r: "replicate 65565 (0::byte) = 0 # replicate 65564 0"
    by (metis replicate_Suc eval_nat_numeral(3) numeral_plus_one) 
  show ?thesis
    using assms by (simp add: buf_copy_def Buffer_alloc_def m r)
qed

lemma upload_on_data_eq:
  assumes "c \<noteq> []" "length c \<le> 65564"
  shows "upload_on_data req sent c =
           (req\<lparr>req_size := req_size req + length c, req_inflight := req_inflight req + 1\<rparr>,
            sent @ [if hd c = 0 \<or> hd c = 123 then 0 # c else c])"
proof -
  obtain x xs where c: "c = x # xs" using assms(1) by (cases c) auto
  have g: "buf_get (0 # c @ replicate (65564 - length c) 0) 1 = Some x"
    by (simp add: buf_get_def c)
  show ?thesis
    using assms(2) unfolding upload_on_data_def upload_copy [OF assms(2)] Let_def g
    by (simp add: buf_slice_def c)
qed

lemma transform_loop_total:
  assumes "0 < csize"
  shows "\<exists>k pushed'. transform_loop csize buf chunk_start pushed = Some (k, pushed @ pushed')
           \<and> (\<forall>p \<in> set pushed'. length p \<le> csize) \<and> length buf - k \<le> csize"
proof (induction "length buf - chunk_start" arbitrary: chunk_start pushed rule: less_induct)
  case less
  show ?case
  proof (cases "chunk_start + csize < length buf")
    case True
    then have "length buf - (chunk_start + csize) < length buf - chunk_start"
      using assms by linarith
    from less [OF this, of "pushed @ [buf_slice buf chunk_start (chunk_start + csize)]"]
    obtain k pushed' where
      h: "transform_loop csize buf (chunk_start + csize) (pushed @ [buf_slice buf chunk_start (chunk_start + csize)])
            = Some (k, (pushed @ [buf_slice buf chunk_start (chunk_start + csize)]) @ pushed')"
         "\<forall>p \<in> set pushed'. length p \<le> csize" "length buf - k \<le> csize"
      by blast
    have "transform_loop csize buf chunk_start pushed
            = Some (k, pushed @ (buf_slice buf chunk_start (chunk_start + csize) # pushed'))"
      using True h(1) by (subst transform_loop.simps) simp
    moreover have "\<forall>p \<in> set (buf_slice buf chunk_start (chunk_start + csize) # pushed'). length p \<le> csize"
      using h(2) by (simp add: buf_slice_def)
    ultimately show ?thesis using h(3) by blast
  next
    case False
    then have "transform_loop csize buf chunk_start pushed = Some (chunk_start, pushed @ [])"
      by (subst transform_loop.simps) simp
    moreover have "length buf - chunk_start \<le> csize" using False by simp
    ultimately show ?thesis by fastforce
  qed
qed


lemma chunker_transform_total:
  assumes "0 < chunksize c"
  shows "\<exists>c' pushed. chunker_transform c w = Some (c', pushed)
           \<and> chunksize c' = chunksize c
           \<and> length (sc_buffer c') \<le> chunksize c
           \<and> (\<forall>p \<in> set pushed. length p \<le> chunksize c)"
proof -
  from transform_loop_total [OF assms, of "sc_buffer c @ w" 0 "[]"]
  obtain k pushed where
    h: "transform_loop (chunksize c) (sc_buffer c @ w) 0 [] = Some (k, pushed)"
       "\<forall>p \<in> set pushed. length p \<le> chunksize c"
       "length (sc_buffer c @ w) - k \<le> chunksize c"
    by auto
  then show ?thesis
    by (simp add: chunker_transform_def)
qed

lemma chunker_run_total:
  assumes "0 < chunksize c" "length (sc_buffer c) \<le> chunksize c"
  shows "\<exists>chunks. chunker_run c ws = Some chunks \<and> (\<forall>p \<in> set chunks. length p \<le> chunksize c)"
  using assms
proof (induction ws arbitrary: c)
  case Nil
  then show ?case by (simp add: chunker_flush_def)
next
  case (Cons w ws)
  from chunker_transform_total [OF Cons.prems(1), of w]
  obtain c' pushed where
    t: "chunker_transform c w = Some (c', pushed)" "chunksize c' = chunksize c"
       "length (sc_buffer c') \<le> chunksize c" "\<forall>p \<in> set pushed. length p \<le> chunksize c"
    by blast
  from Cons.IH [of c'] t(2,3) Cons.prems(1)
  obtain chunks where
    r: "chunker_run c' ws = Some chunks" "\<forall>p \<in> set chunks. length p \<le> chunksize c"
    by auto
  show ?case
    using t(1,4) r by auto
qed

lemma upload_chunker_chunks:
  "\<exists>chunks. chunker_run (new_size_chunker 65564) ws = Some chunks
     \<and> (\<forall>p \<in> set chunks. length p \<le> 65564)"
  using chunker_run_total [of "new_size_chunker 65564" ws]
  by (simp add: new_size_chunker_def Buffer_alloc_def)

theorem upload_chunk_framing:
  assumes "chunker_run (new_size_chunker 65564) ws = Some chunks"
    and "c \<in> set chunks" and "c \<noteq> []"
  shows "upload_frames c = [if hd c = 0 \<or> hd c = 123 then 0 # c else c]
         \<and> hd (hd (upload_frames c)) \<noteq> 123"
proof -
  have "length c \<le> 65564"
    using upload_chunker_chunks [of ws] assms(1,2) by auto
  then show ?thesis
    using assms(3) by (simp add: upload_frames_def upload_on_data_eq)
qed

theorem upload_chunk_framing_witness:
  "chunker_run (new_size_chunker 65564) [[0x7B, 0x41], [0x42]] = Some [[0x7B, 0x41, 0x42]]
   \<and> upload_frames [0x7B, 0x41, 0x42] = [[0x00, 0x7B, 0x41, 0x42]]
   \<and> hd (hd (upload_frames [0x7B, 0x41, 0x42])) \<noteq> 123"
proof -
  have r: "chunker_run (new_size_chunker 65564) [[0x7B, 0x41], [0x42]] = Some [[0x7B, 0x41, 0x42]]"
    by (simp add: new_size_chunker_def Buffer_alloc_def chunker_transform_def chunker_flush_def
        transform_loop.simps)
  show ?thesis
    using r upload_chunk_framing [OF r, of "[0x7B, 0x41, 0x42]"] by simp
qed

theorem upload_frame_first_byte_counterexample:
  "chunker_run (new_size_chunker 65564) [[0x41, 0x42]] = Some [[0x41, 0x42]]
   \<and> upload_frames [0x41, 0x42] = [[0x41, 0x42]]
   \<and> hd (hd (upload_frames [0x41, 0x42])) \<noteq> 0x00"
proof -
  have r: "chunker_run (new_size_chunker 65564) [[0x41, 0x42]] = Some [[0x41, 0x42]]"
    by (simp add: new_size_chunker_def Buffer_alloc_def chunker_transform_def chunker_flush_def
        transform_loop.simps)
  have "upload_frames [0x41, 0x42] = [[0x41, 0x42]]"
    by (simp add: upload_frames_def upload_on_data_eq)
  then show ?thesis using r by simp
qed

section \<open>Properties of the shell reads\<close>

lemma Buffer_slice_take: "0 \<le> n \<Longrightarrow> Buffer_slice buf 0 (Some n) = take (nat n) buf"
  by (cases "nat n \<le> length buf") (simp_all add: Buffer_slice_def adjust_offset_def min_def)

lemma Buffer_slice_drop: "0 \<le> n \<Longrightarrow> Buffer_slice buf n None = drop (nat n) buf"
  by (cases "nat n \<le> length buf") (simp_all add: Buffer_slice_def adjust_offset_def min_def)






lemma shell_read_keeps_buffer_example:
  "shell_read (Some 5) (Some 250) False \<lparr>sh_buffer = [0x61, 0x62], readyState = 1\<rparr> 0
      [\<lparr>t_now = 100, t_arrived = [0x63], t_readyState = 1\<rparr>,
       \<lparr>t_now = 300, t_arrived = [], t_readyState = 1\<rparr>]
     = (Reject \<lparr>reason = ''timeout'', read_data = None\<rparr>,
        \<lparr>sh_buffer = [0x61, 0x62, 0x63], readyState = 1\<rparr>)"
  by (simp add: shell_read_def read_check_data_def env_def)

text \<open>
  \<open>expect\<close> on text of one-byte characters: the decoded string has one code unit for
  each byte, the position of the match is a byte position, and the read that follows
  takes the buffer through the end of the match.
\<close>

lemma utf8_toString_ascii: "\<forall>b \<in> set bs. unat b < 0x80 \<Longrightarrow> utf8_toString bs = map unat bs"
  by (induction bs) simp_all

lemma shell_expect_ascii:
  assumes "\<forall>b \<in> set (sh_buffer sh). unat b < 0x80"
    and "readyState sh \<le> 1"
    and "match (map unat (sh_buffer sh)) = Some (index, mlen)"
    and "index + mlen \<le> length (sh_buffer sh)"
  shows "shell_expect utf8_toString match None ri sh now ticks
           = (Resolve (take (index + mlen) (sh_buffer sh)),
              sh\<lparr>sh_buffer := drop (index + mlen) (sh_buffer sh)\<rparr>)"
proof -
  have r: "read_check_data (Some (int (index + mlen))) None False now now sh
             = (Resolve (take (index + mlen) (sh_buffer sh)),
                sh\<lparr>sh_buffer := drop (index + mlen) (sh_buffer sh)\<rparr>)"
    using assms(2,4)
    by (simp add: read_check_data_def Buffer_slice_take Buffer_slice_drop del: of_nat_add)
  have "shell_read (Some (int (index + mlen))) None False sh now ticks
          = (Resolve (take (index + mlen) (sh_buffer sh)),
             sh\<lparr>sh_buffer := drop (index + mlen) (sh_buffer sh)\<rparr>)"
    unfolding shell_read_def using r by (cases ticks) simp_all
  then show ?thesis
    using assms(2,3) utf8_toString_ascii [OF assms(1)]
    by (simp add: shell_expect_def)
qed

lemma shell_expect_example:
  "shell_expect utf8_toString (match_literal (units_of ''READY'' @ [0x0A])) None False
     \<lparr>sh_buffer = bytes_of ''foo READY'' @ [0x0A] @ bytes_of ''bar'', readyState = 1\<rparr> 0 []
   = (Resolve (bytes_of ''foo READY'' @ [0x0A]), \<lparr>sh_buffer = bytes_of ''bar'', readyState = 1\<rparr>)"
  by (simp add: shell_expect_def shell_read_def read_check_data_def bytes_of_def units_of_def
      match_literal_def Buffer_slice_def adjust_offset_def)

text \<open>
  C7.  The buffer holds the UTF-8 bytes of an e with acute accent (two bytes,
  \<open>C3 A9\<close>) followed by \<open>" READY"\<close>, a line feed and \<open>"bar"\<close>; the pattern matches
  \<open>"READY"\<close> and the line feed.  The match is at index 2 of the decoded string and has
  length 6, so \<open>expect\<close> reads 8 bytes: it resolves with the bytes up to and including
  \<open>"READY"\<close>, one byte short of the end of the match, and the line feed that ends the
  match stays in the buffer in front of \<open>"bar"\<close>.
\<close>

theorem shell_expect_multibyte_short:
  "shell_expect utf8_toString (match_literal (units_of ''READY'' @ [0x0A])) None False
     \<lparr>sh_buffer = [0xC3, 0xA9] @ bytes_of '' READY'' @ [0x0A] @ bytes_of ''bar'', readyState = 1\<rparr> 0 []
   = (Resolve ([0xC3, 0xA9] @ bytes_of '' READY''),
      \<lparr>sh_buffer = [0x0A] @ bytes_of ''bar'', readyState = 1\<rparr>)"
  by (simp add: shell_expect_def shell_read_def read_check_data_def bytes_of_def units_of_def
      match_literal_def Buffer_slice_def adjust_offset_def is_cont_def)

section \<open>Properties of the event filter\<close>

lemma entries_size:
  assumes "Object_entries obj1 = Inr es" "(k, v) \<in> set es" "instanceof_Object v"
  shows "size v < size obj1"
proof (cases obj1)
  case (JObj kvs)
  with assms have "(k, v) \<in> set kvs" by (simp add: Object_entries_def)
  then have "size v < Suc (size_list (size_prod (\<lambda>_. 0) size) kvs)"
    by (induction kvs) auto
  with JObj show ?thesis by simp
next
  case (JArr xs)
  with assms have "v \<in> set xs" by (auto simp: Object_entries_def indexed_def dest: set_zip_rightD)
  then have "size v < Suc (size_list size xs)"
    by (induction xs) auto
  with JArr show ?thesis by simp
next
  case (JStr s)
  with assms show ?thesis by (auto simp: Object_entries_def indexed_def instanceof_Object_def dest!: set_zip_rightD)
qed (use assms in \<open>auto simp: Object_entries_def\<close>)


lemma for_entries_live:
  "for_entries ((key, val) # es) obj2 =
     (case js_get obj2 key of
        Inl e \<Rightarrow> Inl e
      | Inr o2k \<Rightarrow>
          if \<not> truthy o2k then Inr False
          else if instanceof_Object val then
            (case compare_obj val o2k of
               Inl e \<Rightarrow> Inl e
             | Inr b \<Rightarrow> if \<not> b then Inr False else for_entries es obj2)
          else if o2k \<noteq> val then Inr False
          else for_entries es obj2)"
  by (cases val) (simp_all add: instanceof_Object_def instanceof_Set_def instanceof_Array_def
      split: sum.splits)

lemma js_get_total: "\<not> nullish v \<Longrightarrow> \<exists>x. js_get v key = Inr x"
  by (cases v) (simp_all add: js_get_def nullish_def)

lemma Object_entries_total: "\<not> nullish v \<Longrightarrow> \<exists>es. Object_entries v = Inr es"
  by (cases v) (simp_all add: Object_entries_def nullish_def)

lemma truthy_not_nullish: "truthy v \<Longrightarrow> \<not> nullish v"
  by (auto simp: truthy_def nullish_def)

lemma instanceof_Object_not_nullish: "instanceof_Object v \<Longrightarrow> \<not> nullish v"
  by (auto simp: instanceof_Object_def nullish_def)

lemma for_entries_total:
  assumes "\<And>k v o2. (k, v) \<in> set es \<Longrightarrow> instanceof_Object v \<Longrightarrow> \<not> nullish o2
             \<Longrightarrow> \<exists>b. compare_obj v o2 = Inr b"
    and "\<not> nullish obj2"
  shows "\<exists>b. for_entries es obj2 = Inr b"
  using assms(1)
proof (induction es)
  case Nil
  show ?case by auto
next
  case (Cons e es)
  obtain key val where e: "e = (key, val)" by (cases e)
  from js_get_total [OF assms(2)] obtain o2k where g: "js_get obj2 key = Inr o2k" by blast
  have rest: "\<exists>b. for_entries es obj2 = Inr b"
  proof (rule Cons.IH)
    fix k v o2
    assume "(k, v) \<in> set es" "instanceof_Object v" "\<not> nullish o2"
    then show "\<exists>b. compare_obj v o2 = Inr b"
      using Cons.prems [of k v o2] by simp
  qed
  show ?case
  proof (cases "truthy o2k \<and> instanceof_Object val")
    case True
    then obtain b where "compare_obj val o2k = Inr b"
      using Cons.prems [of key val o2k] e truthy_not_nullish by auto
    then show ?thesis
      using rest g True unfolding e for_entries_live by auto
  next
    case False
    then show ?thesis
      using rest g unfolding e for_entries_live by auto
  qed
qed

lemma compare_obj_total:
  "\<not> nullish obj1 \<Longrightarrow> \<not> nullish obj2 \<Longrightarrow> \<exists>b. compare_obj obj1 obj2 = Inr b"
proof (induction "size obj1" arbitrary: obj1 obj2 rule: less_induct)
  case less
  from Object_entries_total [OF less.prems(1)] obtain es where es: "Object_entries obj1 = Inr es"
    by blast
  have "\<exists>b. for_entries es obj2 = Inr b"
  proof (rule for_entries_total [OF _ less.prems(2)])
    fix k v o2
    assume "(k, v) \<in> set es" "instanceof_Object v" "\<not> nullish o2"
    then show "\<exists>b. compare_obj v o2 = Inr b"
      using less.hyps [of v o2] entries_size [OF es] instanceof_Object_not_nullish by blast
  qed
  then show ?case using es by (simp add: compare_obj.simps)
qed


text \<open>
  The two examples of a structural filter: \<open>{event: {etype: "ugrp"}}\<close> matches an event
  with further keys and does not match an event of another type.
\<close>

lemma compare_obj_examples:
  "compare_obj (JObj [(''event'', JObj [(''etype'', JStr ''ugrp'')])])
     (JObj [(''event'', JObj [(''etype'', JStr ''ugrp''), (''other'', JNum 1)])]) = Inr True"
  "compare_obj (JObj [(''event'', JObj [(''etype'', JStr ''ugrp'')])])
     (JObj [(''event'', JObj [(''etype'', JStr ''node'')])]) = Inr False"
  by code_simp+

text \<open>A key whose value in the candidate is falsy counts as missing, also when the values are equal.\<close>

lemma compare_obj_falsy_value:
  "compare_obj (JObj [(''a'', JNum 0)]) (JObj [(''a'', JNum 0)]) = Inr False"
  by code_simp

text \<open>
  C6.  The filter \<open>{users: new Set(["bob"])}\<close> is compared with the event
  \<open>{users: ["alice"]}\<close>, and the filter \<open>{a: [1, 2]}\<close> with the event \<open>{a: [1, 2, 3]}\<close>.
  No element of the event's \<open>users\<close> matches \<open>"bob"\<close>, and the two arrays differ in
  length, yet \<open>_compare_obj\<close> reports a match in both cases: the test
  \<open>val instanceof Object\<close> comes first and holds for a Set and for an Array, so the
  branches written for them are never entered (\<open>for_entries_live\<close>); a Set has no
  entries and always matches, an Array is compared index by index as an object.
\<close>

theorem compare_obj_set_array_match:
  "compare_obj (JObj [(''users'', JSet [JStr ''bob''])]) (JObj [(''users'', JArr [JStr ''alice''])])
     = Inr True
   \<and> compare_obj (JObj [(''a'', JArr [JNum 1, JNum 2])]) (JObj [(''a'', JArr [JNum 1, JNum 2, JNum 3])])
     = Inr True"
  by code_simp

section \<open>Properties of the session: pending requests, dispatch and close\<close>

lemma settle_p_settled [simp]: "settled (settle_p a d)"
  by (cases d) (auto simp: settle_p_def settled_def resolve_def reject_def)

lemma settle_p_idem [simp]: "settle_p a (settle_p a d) = settle_p a d"
  by (cases d) (auto simp: settle_p_def resolve_def reject_def)

lemma settle_p_Unsettled:
  "settle_p a Unsettled = (if instanceof_Error a then Failed a else Fulfilled a)"
  by (simp add: settle_p_def resolve_def reject_def)

text \<open>Effect of settling one request.\<close>

lemma settle_request_fields [simp]:
  "s_eventer (settle_request h a s) = s_eventer s"
  "s_inflight (settle_request h a s) = s_inflight s"
  "s_alive (settle_request h a s) = s_alive s"
  "s_initialized (settle_request h a s) = s_initialized s"
  "s_calls (settle_request h a s) = s_calls s"
  "s_file_tunnels (settle_request h a s) = s_file_tunnels s"
  "s_shell_tunnels (settle_request h a s) = s_shell_tunnels s"
  "s_smart_shell_tunnels (settle_request h a s) = s_smart_shell_tunnels s"
  "s_tunnel_close_calls (settle_request h a s) = s_tunnel_close_calls s"
  "s_command_id (settle_request h a s) = s_command_id s"
  "length (s_requests (settle_request h a s)) = length (s_requests s)"
  by (simp_all add: settle_request_def Let_def)

lemma settle_request_p:
  "k < length (s_requests s) \<Longrightarrow>
     rq_p (s_requests (settle_request h a s) ! k)
       = (if k = h then settle_p a (rq_p (s_requests s ! k)) else rq_p (s_requests s ! k))"
  by (simp add: settle_request_def Let_def settle_p_def nth_list_update)

lemma settle_request_result:
  "k < length (s_requests s) \<Longrightarrow>
     rq_result (s_requests (settle_request h a s) ! k)
       = (if k = h then settle_p a (rq_result (s_requests s ! k)) else rq_result (s_requests s ! k))"
  by (simp add: settle_request_def Let_def settle_p_def nth_list_update)

lemma settle_request_id:
  "k < length (s_requests s) \<Longrightarrow>
     rq_id (s_requests (settle_request h a s) ! k) = rq_id (s_requests s ! k)"
  by (simp add: settle_request_def Let_def nth_list_update)

lemma invoke_ok:
  assumes "\<not> nullish (payload_value a)"
  shows "\<exists>s'. invoke l a s = Inr s'"
proof (cases l)
  case (EventCallback f flt)
  show ?thesis
  proof (cases "truthy flt")
    case True
    from compare_obj_total [OF truthy_not_nullish [OF True] assms]
    obtain b where "compare_obj flt (payload_value a) = Inr b" by blast
    then show ?thesis using EventCallback True by simp
  next
    case False
    then show ?thesis using EventCallback by simp
  qed
qed simp_all

lemma invoke_effect:
  assumes "invoke l a s = Inr s'"
  shows "s_eventer s' = s_eventer s"
    and "s_alive s' = s_alive s"
    and "s_initialized s' = s_initialized s"
    and "s_file_tunnels s' = s_file_tunnels s"
    and "s_shell_tunnels s' = s_shell_tunnels s"
    and "s_smart_shell_tunnels s' = s_smart_shell_tunnels s"
    and "s_tunnel_close_calls s' = s_tunnel_close_calls s"
    and "s_command_id s' = s_command_id s"
    and "length (s_requests s') = length (s_requests s)"
    and "s_inflight s' = filter (\<lambda>i. listener_id l \<noteq> Some i) (s_inflight s)"
    and "\<forall>k < length (s_requests s). rq_p (s_requests s' ! k)
           = (if listener_handle l = Some k then settle_p a (rq_p (s_requests s ! k))
              else rq_p (s_requests s ! k))"
    and "\<forall>k < length (s_requests s). rq_id (s_requests s' ! k) = rq_id (s_requests s ! k)"
    and "\<forall>k < length (s_requests s). rq_result (s_requests s' ! k)
           = (if listener_handle l = Some k then settle_p a (rq_result (s_requests s ! k))
              else rq_result (s_requests s ! k))"
  using assms
  by (cases l; auto simp: listener_id_def listener_handle_def settle_request_p settle_request_id
        settle_request_result removeAll_filter_not_eq split: if_splits sum.splits)+


lemma invoke_calls:
  assumes "invoke l a s = Inr s'"
  shows "\<exists>cs. s_calls s' = s_calls s @ cs \<and> (\<forall>f. l = CloseCallback f \<longrightarrow> (f, a) \<in> set cs)"
  using assms by (cases l) (auto split: if_splits sum.splits)

lemma invoke_all_ok:
  assumes "\<not> nullish (payload_value a)"
  shows "\<exists>s'. invoke_all ls a s = Inr s'"
proof (induction ls arbitrary: s)
  case Nil
  show ?case by simp
next
  case (Cons l ls)
  from invoke_ok [OF assms, of l s] obtain s1 where "invoke l a s = Inr s1" by blast
  then show ?case using Cons [of s1] by simp
qed

lemma invoke_all_effect:
  assumes "invoke_all ls a s = Inr s'"
  shows "s_eventer s' = s_eventer s
       \<and> s_alive s' = s_alive s
       \<and> s_initialized s' = s_initialized s
       \<and> s_file_tunnels s' = s_file_tunnels s
       \<and> s_shell_tunnels s' = s_shell_tunnels s
       \<and> s_smart_shell_tunnels s' = s_smart_shell_tunnels s
       \<and> s_tunnel_close_calls s' = s_tunnel_close_calls s
       \<and> s_command_id s' = s_command_id s
       \<and> length (s_requests s') = length (s_requests s)
       \<and> s_inflight s' = filter (\<lambda>i. Some i \<notin> listener_id ` set ls) (s_inflight s)
       \<and> (\<forall>k < length (s_requests s). rq_p (s_requests s' ! k)
             = (if Some k \<in> listener_handle ` set ls then settle_p a (rq_p (s_requests s ! k))
                else rq_p (s_requests s ! k)))
       \<and> (\<forall>k < length (s_requests s). rq_id (s_requests s' ! k) = rq_id (s_requests s ! k))
       \<and> (\<exists>cs. s_calls s' = s_calls s @ cs \<and> (\<forall>f. CloseCallback f \<in> set ls \<longrightarrow> (f, a) \<in> set cs))
       \<and> (\<forall>k < length (s_requests s). rq_result (s_requests s' ! k)
             = (if Some k \<in> listener_handle ` set ls then settle_p a (rq_result (s_requests s ! k))
                else rq_result (s_requests s ! k)))"
  using assms
proof (induction ls arbitrary: s)
  case Nil
  then show ?case by simp
next
  case (Cons l ls)
  from Cons.prems obtain s1 where s1: "invoke l a s = Inr s1" and r: "invoke_all ls a s1 = Inr s'"
    by (auto split: sum.splits)
  note e = invoke_effect [OF s1]
  note c = invoke_calls [OF s1]
  note ih = Cons.IH [OF r]
  have infl: "s_inflight s' = filter (\<lambda>i. Some i \<notin> listener_id ` set (l # ls)) (s_inflight s)"
    using ih e(10) by (auto intro: filter_cong)
  have p: "\<forall>k < length (s_requests s). rq_p (s_requests s' ! k)
             = (if Some k \<in> listener_handle ` set (l # ls) then settle_p a (rq_p (s_requests s ! k))
                else rq_p (s_requests s ! k))"
  proof (intro allI impI)
    fix k assume k: "k < length (s_requests s)"
    then have k1: "k < length (s_requests s1)" using e(9) by simp
    show "rq_p (s_requests s' ! k)
             = (if Some k \<in> listener_handle ` set (l # ls) then settle_p a (rq_p (s_requests s ! k))
                else rq_p (s_requests s ! k))"
      using ih k1 e(11) k by auto
  qed
  have i: "\<forall>k < length (s_requests s). rq_id (s_requests s' ! k) = rq_id (s_requests s ! k)"
    using ih e(9,12) by auto
  have q: "\<forall>k < length (s_requests s). rq_result (s_requests s' ! k)
             = (if Some k \<in> listener_handle ` set (l # ls) then settle_p a (rq_result (s_requests s ! k))
                else rq_result (s_requests s ! k))"
  proof (intro allI impI)
    fix k assume k: "k < length (s_requests s)"
    then have k1: "k < length (s_requests s1)" using e(9) by simp
    show "rq_result (s_requests s' ! k)
             = (if Some k \<in> listener_handle ` set (l # ls) then settle_p a (rq_result (s_requests s ! k))
                else rq_result (s_requests s ! k))"
      using ih k1 e(13) k by auto
  qed
  obtain cs1 where cs1: "s_calls s1 = s_calls s @ cs1" "\<forall>f. l = CloseCallback f \<longrightarrow> (f, a) \<in> set cs1"
    using c by blast
  obtain cs2 where cs2: "s_calls s' = s_calls s1 @ cs2" "\<forall>f. CloseCallback f \<in> set ls \<longrightarrow> (f, a) \<in> set cs2"
    using ih by blast
  have calls: "\<exists>cs. s_calls s' = s_calls s @ cs \<and> (\<forall>f. CloseCallback f \<in> set (l # ls) \<longrightarrow> (f, a) \<in> set cs)"
    using cs1 cs2 by (intro exI [of _ "cs1 @ cs2"]) auto
  show ?case
    using ih e(1-9) infl p i calls q by simp
qed


lemma invoke_all_ok_no_callback:
  assumes "\<forall>l \<in> set ls. \<not> is_event_callback l"
  shows "\<exists>s'. invoke_all ls a s = Inr s'"
  using assms
proof (induction ls arbitrary: s)
  case Nil
  show ?case by simp
next
  case (Cons l ls)
  then have "\<not> is_event_callback l" by simp
  then obtain s1 where "invoke l a s = Inr s1"
    by (cases l) (auto simp: is_event_callback_def)
  then show ?case using Cons.IH [of s1] Cons.prems by simp
qed

lemma emit_unfold:
  "emit name a s =
     (if name = ''error'' \<and> called name s = [] then Inl Unhandled
      else invoke_all (called name s) a
             (s\<lparr>s_eventer := filter (\<lambda>(n, once, l). \<not> (n = name \<and> once)) (s_eventer s)\<rparr>))"
  by (simp add: emit_def Let_def)

lemma called_iff: "l \<in> set (called name s) \<longleftrightarrow> (\<exists>once. (name, once, l) \<in> set (s_eventer s))"
  by (auto simp: called_def image_iff)

lemma emit_effect:
  assumes "emit name a s = Inr s'"
  shows "s_eventer s' = filter (\<lambda>(n, once, l). \<not> (n = name \<and> once)) (s_eventer s)
       \<and> s_alive s' = s_alive s
       \<and> s_initialized s' = s_initialized s
       \<and> s_file_tunnels s' = s_file_tunnels s
       \<and> s_shell_tunnels s' = s_shell_tunnels s
       \<and> s_smart_shell_tunnels s' = s_smart_shell_tunnels s
       \<and> s_tunnel_close_calls s' = s_tunnel_close_calls s
       \<and> s_command_id s' = s_command_id s
       \<and> length (s_requests s') = length (s_requests s)
       \<and> s_inflight s' = filter (\<lambda>i. Some i \<notin> listener_id ` set (called name s)) (s_inflight s)
       \<and> (\<forall>k < length (s_requests s). rq_p (s_requests s' ! k)
             = (if Some k \<in> listener_handle ` set (called name s)
                then settle_p a (rq_p (s_requests s ! k)) else rq_p (s_requests s ! k)))
       \<and> (\<forall>k < length (s_requests s). rq_id (s_requests s' ! k) = rq_id (s_requests s ! k))
       \<and> (\<exists>cs. s_calls s' = s_calls s @ cs
             \<and> (\<forall>f. CloseCallback f \<in> set (called name s) \<longrightarrow> (f, a) \<in> set cs))
       \<and> (\<forall>k < length (s_requests s). rq_result (s_requests s' ! k)
             = (if Some k \<in> listener_handle ` set (called name s)
                then settle_p a (rq_result (s_requests s ! k)) else rq_result (s_requests s ! k)))"
proof -
  let ?s0 = "s\<lparr>s_eventer := filter (\<lambda>(n, once, l). \<not> (n = name \<and> once)) (s_eventer s)\<rparr>"
  from assms have "invoke_all (called name s) a ?s0 = Inr s'"
    by (auto simp: emit_unfold split: if_splits)
  from invoke_all_effect [OF this] show ?thesis by simp
qed

lemma waiting_iff: "(h, i) \<in> waiting s \<longleftrightarrow> (\<exists>n once. (n, once, Waiter h i) \<in> set (s_eventer s))"
  by (simp add: waiting_def)

lemma inv_D:
  assumes "session_inv s"
  shows "\<forall>n once h i. (n, once, Waiter h i) \<in> set (s_eventer s) \<longrightarrow> n = i \<and> once"
    and "\<forall>h h' i. (h, i) \<in> waiting s \<longrightarrow> (h', i) \<in> waiting s \<longrightarrow> h = h'"
    and "\<forall>h i i'. (h, i) \<in> waiting s \<longrightarrow> (h, i') \<in> waiting s \<longrightarrow> i = i'"
    and "snd ` waiting s = set (s_inflight s)"
    and "\<forall>h i. (h, i) \<in> waiting s \<longrightarrow>
           h < length (s_requests s) \<and> rq_p (s_requests s ! h) = Unsettled
           \<and> rq_id (s_requests s ! h) = i"
    and "\<forall>h \<in> waiting_no_id s. h < length (s_requests s) \<and> h \<notin> fst ` waiting s"
    and "\<forall>h i. (h, i) \<in> waiting s \<longrightarrow> take 9 i = ''meshctrl_''"
    and "\<forall>n once f flt. (n, once, EventCallback f flt) \<in> set (s_eventer s) \<longrightarrow> n = ''server_event''"
  using assms unfolding session_inv_def by - (elim conjE, assumption)+

lemma inv_waiter_reg:
  "session_inv s \<Longrightarrow> (n, once, Waiter h i) \<in> set (s_eventer s) \<Longrightarrow> n = i \<and> once"
  using inv_D(1) by blast

lemma inv_waiting_called:
  assumes "session_inv s"
  shows "(h, i) \<in> waiting s \<longleftrightarrow> Waiter h i \<in> set (called i s)"
proof
  assume "(h, i) \<in> waiting s"
  then obtain n once where m: "(n, once, Waiter h i) \<in> set (s_eventer s)"
    unfolding waiting_iff by blast
  from inv_waiter_reg [OF assms m] m have "(i, once, Waiter h i) \<in> set (s_eventer s)" by blast
  then show "Waiter h i \<in> set (called i s)" unfolding called_iff by blast
next
  assume "Waiter h i \<in> set (called i s)"
  then show "(h, i) \<in> waiting s" unfolding called_iff waiting_iff by blast
qed

lemma inv_called_waiter:
  assumes "session_inv s" "Waiter h i \<in> set (called name s)"
  shows "i = name \<and> (h, i) \<in> waiting s"
  using assms inv_waiter_reg [OF assms(1)] by (auto simp: waiting_iff called_iff)

lemma filtered_reg:
  "(n, once, l) \<in> set (filter (\<lambda>(n, once, l). \<not> (n = name \<and> once)) evs)
     \<longleftrightarrow> (n, once, l) \<in> set evs \<and> \<not> (n = name \<and> once)"
  by simp

lemma emit_waiting:
  assumes inv: "session_inv s"
    and ev: "s_eventer s' = filter (\<lambda>(n, once, l). \<not> (n = name \<and> once)) (s_eventer s)"
  shows "(h, i) \<in> waiting s' \<longleftrightarrow> (h, i) \<in> waiting s \<and> i \<noteq> name"
proof
  assume "(h, i) \<in> waiting s'"
  then obtain n once where r: "(n, once, Waiter h i) \<in> set (s_eventer s')"
    unfolding waiting_iff by blast
  then have m: "(n, once, Waiter h i) \<in> set (s_eventer s)" and x: "\<not> (n = name \<and> once)"
    unfolding ev filtered_reg by blast+
  from inv_waiter_reg [OF inv m] x have "i \<noteq> name" by blast
  then show "(h, i) \<in> waiting s \<and> i \<noteq> name" using m unfolding waiting_iff by blast
next
  assume a: "(h, i) \<in> waiting s \<and> i \<noteq> name"
  then obtain n once where m: "(n, once, Waiter h i) \<in> set (s_eventer s)"
    unfolding waiting_iff by blast
  from inv_waiter_reg [OF inv m] a have "\<not> (n = name \<and> once)" by blast
  with m have "(n, once, Waiter h i) \<in> set (s_eventer s')" unfolding ev filtered_reg by blast
  then show "(h, i) \<in> waiting s'" unfolding waiting_iff by blast
qed

lemma emit_waiting_no_id:
  assumes ev: "s_eventer s' = filter (\<lambda>(n, once, l). \<not> (n = name \<and> once)) (s_eventer s)"
    and "h \<in> waiting_no_id s'"
  shows "h \<in> waiting_no_id s"
proof -
  from assms(2) obtain n once where "(n, once, WaiterNoId h) \<in> set (s_eventer s')"
    unfolding waiting_no_id_def by blast
  then have "(n, once, WaiterNoId h) \<in> set (s_eventer s)"
    unfolding ev filtered_reg by blast
  then show ?thesis unfolding waiting_no_id_def by blast
qed

lemma inv_inflight: "session_inv s \<Longrightarrow> snd ` waiting s = set (s_inflight s)"
  by (rule inv_D(4))

lemma inv_waiting_request:
  "session_inv s \<Longrightarrow> (h, i) \<in> waiting s \<Longrightarrow>
     h < length (s_requests s) \<and> rq_p (s_requests s ! h) = Unsettled \<and> rq_id (s_requests s ! h) = i"
  using inv_D(5) by blast

lemma inv_one_id: "session_inv s \<Longrightarrow> (h, i) \<in> waiting s \<Longrightarrow> (h, i') \<in> waiting s \<Longrightarrow> i = i'"
  using inv_D(3) by blast

lemma inv_one_handle: "session_inv s \<Longrightarrow> (h, i) \<in> waiting s \<Longrightarrow> (h', i) \<in> waiting s \<Longrightarrow> h = h'"
  using inv_D(2) by blast

lemma inv_no_id:
  "session_inv s \<Longrightarrow> h \<in> waiting_no_id s \<Longrightarrow> h < length (s_requests s) \<and> h \<notin> fst ` waiting s"
  using inv_D(6) by blast

lemma inv_prefix: "session_inv s \<Longrightarrow> (h, i) \<in> waiting s \<Longrightarrow> take 9 i = ''meshctrl_''"
  using inv_D(7) by blast

lemma inv_callback:
  "session_inv s \<Longrightarrow> (n, once, EventCallback f flt) \<in> set (s_eventer s) \<Longrightarrow> n = ''server_event''"
  using inv_D(8) by blast

lemma called_ids:
  assumes inv: "session_inv s"
  shows "Some i \<in> listener_id ` set (called name s) \<longleftrightarrow> i = name \<and> i \<in> set (s_inflight s)"
proof
  assume "Some i \<in> listener_id ` set (called name s)"
  then obtain l where l: "l \<in> set (called name s)" "listener_id l = Some i" by auto
  from l(2) obtain h where "l = Waiter h i" by (cases l) (auto simp: listener_id_def)
  with l inv_called_waiter [OF inv, of h i name] have "i = name" "(h, i) \<in> waiting s" by auto
  then show "i = name \<and> i \<in> set (s_inflight s)"
    using inv_inflight [OF inv] by force
next
  assume a: "i = name \<and> i \<in> set (s_inflight s)"
  with inv_inflight [OF inv] obtain h where "(h, i) \<in> waiting s" by force
  then have "Waiter h i \<in> set (called i s)" using inv_waiting_called [OF inv] by simp
  then have "listener_id (Waiter h i) \<in> listener_id ` set (called name s)"
    using a by blast
  then show "Some i \<in> listener_id ` set (called name s)"
    by (simp add: listener_id_def)
qed

lemma called_handles:
  assumes inv: "session_inv s" and w: "(h, i) \<in> waiting s" and ne: "i \<noteq> name"
  shows "Some h \<notin> listener_handle ` set (called name s)"
proof
  assume "Some h \<in> listener_handle ` set (called name s)"
  then obtain l where l: "l \<in> set (called name s)" "listener_handle l = Some h" by auto
  from l(2) consider i' where "l = Waiter h i'" | "l = WaiterNoId h"
    by (cases l) (auto simp: listener_handle_def)
  then show False
  proof cases
    case 1
    with l inv_called_waiter [OF inv, of h i' name] have "i' = name" "(h, i') \<in> waiting s" by auto
    with inv_one_id [OF inv w] ne show False by blast
  next
    case 2
    with l have "h \<in> waiting_no_id s" by (auto simp: waiting_no_id_def called_iff)
    with inv_no_id [OF inv] w show False by force
  qed
qed

lemma filter_neq_removeAll: "filter (\<lambda>i. i \<noteq> x) xs = removeAll x xs"
  by (induction xs) auto

lemma emit_inv:
  assumes inv: "session_inv s" and e: "emit name a s = Inr s'"
  shows "session_inv s'"
    and "\<And>h i. (h, i) \<in> waiting s' \<longleftrightarrow> (h, i) \<in> waiting s \<and> i \<noteq> name"
    and "s_inflight s' = removeAll name (s_inflight s)"
    and "\<And>h. (h, name) \<in> waiting s \<Longrightarrow> rq_p (s_requests s' ! h) = settle_p a Unsettled"
    and "\<And>h i. (h, i) \<in> waiting s \<Longrightarrow> i \<noteq> name \<Longrightarrow> rq_p (s_requests s' ! h) = Unsettled"
    and "\<And>h. (h, name) \<in> waiting s \<Longrightarrow>
           rq_result (s_requests s' ! h) = settle_p a (rq_result (s_requests s ! h))"
    and "\<And>h i. (h, i) \<in> waiting s \<Longrightarrow> i \<noteq> name \<Longrightarrow>
           rq_result (s_requests s' ! h) = rq_result (s_requests s ! h)"
proof -
  note ef = emit_effect [OF e]
  have qs: "\<forall>k < length (s_requests s). rq_result (s_requests s' ! k)
             = (if Some k \<in> listener_handle ` set (called name s)
                then settle_p a (rq_result (s_requests s ! k)) else rq_result (s_requests s ! k))"
    using ef by blast
  have ev: "s_eventer s' = filter (\<lambda>(n, once, l). \<not> (n = name \<and> once)) (s_eventer s)"
    using ef by blast
  have len: "length (s_requests s') = length (s_requests s)"
    using ef by blast
  have ps: "\<forall>k < length (s_requests s). rq_p (s_requests s' ! k)
             = (if Some k \<in> listener_handle ` set (called name s)
                then settle_p a (rq_p (s_requests s ! k)) else rq_p (s_requests s ! k))"
    using ef by blast
  have idq: "\<forall>k < length (s_requests s). rq_id (s_requests s' ! k) = rq_id (s_requests s ! k)"
    using ef by blast
  show w: "(h, i) \<in> waiting s' \<longleftrightarrow> (h, i) \<in> waiting s \<and> i \<noteq> name" for h i
    by (rule emit_waiting [OF inv ev])
  show infl: "s_inflight s' = removeAll name (s_inflight s)"
  proof -
    have "s_inflight s' = filter (\<lambda>i. Some i \<notin> listener_id ` set (called name s)) (s_inflight s)"
      using ef by blast
    also have "\<dots> = filter (\<lambda>i. i \<noteq> name) (s_inflight s)"
      by (rule filter_cong [OF refl]) (simp add: called_ids [OF inv])
    also have "\<dots> = removeAll name (s_inflight s)"
      by (rule filter_neq_removeAll)
    finally show ?thesis .
  qed
  show hit: "rq_p (s_requests s' ! h) = settle_p a Unsettled" if "(h, name) \<in> waiting s" for h
  proof -
    have "Waiter h name \<in> set (called name s)" using that inv_waiting_called [OF inv] by simp
    then have "listener_handle (Waiter h name) \<in> listener_handle ` set (called name s)"
      by blast
    then have "Some h \<in> listener_handle ` set (called name s)"
      by (simp add: listener_handle_def)
    then show ?thesis using ps inv_waiting_request [OF inv that] by simp
  qed
  show miss: "rq_p (s_requests s' ! h) = Unsettled" if "(h, i) \<in> waiting s" "i \<noteq> name" for h i
    using ps inv_waiting_request [OF inv that(1)] called_handles [OF inv that] by simp
  show "rq_result (s_requests s' ! h) = settle_p a (rq_result (s_requests s ! h))"
    if "(h, name) \<in> waiting s" for h
  proof -
    have "Waiter h name \<in> set (called name s)" using that inv_waiting_called [OF inv] by simp
    then have "listener_handle (Waiter h name) \<in> listener_handle ` set (called name s)"
      by blast
    then have "Some h \<in> listener_handle ` set (called name s)"
      by (simp add: listener_handle_def)
    then show ?thesis using qs inv_waiting_request [OF inv that] by simp
  qed
  show "rq_result (s_requests s' ! h) = rq_result (s_requests s ! h)"
    if "(h, i) \<in> waiting s" "i \<noteq> name" for h i
    using qs inv_waiting_request [OF inv that(1)] called_handles [OF inv that] by simp
  show "session_inv s'"
    unfolding session_inv_def
  proof (intro conjI allI impI ballI)
    fix n once h i
    assume "(n, once, Waiter h i) \<in> set (s_eventer s')"
    then have "(n, once, Waiter h i) \<in> set (s_eventer s)" unfolding ev filtered_reg by blast
    from inv_waiter_reg [OF inv this] show "n = i" "once" by blast+
  next
    fix h h' i
    assume "(h, i) \<in> waiting s'" "(h', i) \<in> waiting s'"
    then show "h = h'" using inv_one_handle [OF inv] w by blast
  next
    fix h i i'
    assume "(h, i) \<in> waiting s'" "(h, i') \<in> waiting s'"
    then show "i = i'" using inv_one_id [OF inv] w by blast
  next
    have "snd ` waiting s' = snd ` waiting s - {name}"
      using w by force
    then show "snd ` waiting s' = set (s_inflight s')"
      unfolding infl inv_inflight [OF inv] by simp
  next
    fix h i
    assume a: "(h, i) \<in> waiting s'"
    then have b: "(h, i) \<in> waiting s" "i \<noteq> name" using w by blast+
    from inv_waiting_request [OF inv b(1)] len show "h < length (s_requests s')" by simp
    from miss [OF b] show "rq_p (s_requests s' ! h) = Unsettled" .
    from inv_waiting_request [OF inv b(1)] idq show "rq_id (s_requests s' ! h) = i" by simp
  next
    fix h
    assume "h \<in> waiting_no_id s'"
    then have n: "h \<in> waiting_no_id s" by (rule emit_waiting_no_id [OF ev])
    from inv_no_id [OF inv n] len show "h < length (s_requests s')" by simp
    from inv_no_id [OF inv n] w show "h \<notin> fst ` waiting s'" by force
  next
    fix h i
    assume "(h, i) \<in> waiting s'"
    then show "take 9 i = ''meshctrl_''" using inv_prefix [OF inv] w by blast
  next
    fix n once f flt
    assume "(n, once, EventCallback f flt) \<in> set (s_eventer s')"
    then have "(n, once, EventCallback f flt) \<in> set (s_eventer s)" unfolding ev filtered_reg by blast
    from inv_callback [OF inv this] show "n = ''server_event''" .
  qed
qed


lemma probe_id_result:
  assumes "probe_id inflight name c = Some r"
  shows "fst r \<notin> set inflight \<and> fst r = command_name name (snd r) \<and> snd r < id_modulus"
proof (rule probe_id.raw_induct
    [where P = "\<lambda>inflight name c r.
        fst r \<notin> set inflight \<and> fst r = command_name name (snd r) \<and> snd r < id_modulus",
      OF _ assms])
  fix probe :: "string list \<Rightarrow> string \<Rightarrow> nat \<Rightarrow> (string \<times> nat) option"
    and inflight name command_id r
  assume IH: "\<And>inflight name c r. probe inflight name c = Some r \<Longrightarrow>
      fst r \<notin> set inflight \<and> fst r = command_name name (snd r) \<and> snd r < id_modulus"
    and eq: "(let (v, command_id) = get_command_id command_id;
                  ident = command_name name v
              in if ident \<in> set inflight then probe inflight name command_id
                 else Some (ident, command_id)) = Some r"
  have m: "(command_id + 1) mod id_modulus < id_modulus"
    by (simp add: id_modulus_def)
  show "fst r \<notin> set inflight \<and> fst r = command_name name (snd r) \<and> snd r < id_modulus"
  proof (cases "command_name name ((command_id + 1) mod id_modulus) \<in> set inflight")
    case True
    with eq have "probe inflight name ((command_id + 1) mod id_modulus) = Some r"
      by (simp add: get_command_id_def Let_def)
    from IH [OF this] show ?thesis .
  next
    case False
    with eq have "r = (command_name name ((command_id + 1) mod id_modulus), (command_id + 1) mod id_modulus)"
      by (simp add: get_command_id_def Let_def)
    then show ?thesis using False m by simp
  qed
qed



lemma command_name_prefix: "take 9 (command_name name n) = ''meshctrl_''"
  by (simp add: command_name_def)

lemma waiting_snoc_waiter:
  assumes "s_eventer s' = s_eventer s @ [(n, once, Waiter h i)]"
  shows "waiting s' = insert (h, i) (waiting s)" and "waiting_no_id s' = waiting_no_id s"
  using assms by (auto simp: waiting_def waiting_no_id_def)

lemma waiting_snoc_no_id:
  assumes "s_eventer s' = s_eventer s @ [(n, once, WaiterNoId h)]"
  shows "waiting s' = waiting s" and "waiting_no_id s' = insert h (waiting_no_id s)"
  using assms by (auto simp: waiting_def waiting_no_id_def)

lemma waiting_eventer_cong:
  assumes "s_eventer s' = s_eventer s"
  shows "waiting s' = waiting s" and "waiting_no_id s' = waiting_no_id s"
  using assms by (auto simp: waiting_def waiting_no_id_def)

text \<open>The invariant depends on the state only through these.\<close>

lemma session_inv_cong:
  assumes "session_inv s"
    and "s_eventer s' = s_eventer s"
    and "s_inflight s' = s_inflight s"
    and "length (s_requests s') = length (s_requests s)"
    and "\<forall>k < length (s_requests s). rq_p (s_requests s' ! k) = rq_p (s_requests s ! k)
           \<and> rq_id (s_requests s' ! k) = rq_id (s_requests s ! k)"
  shows "session_inv s'"
proof -
  note w = waiting_eventer_cong [OF assms(2)]
  note d = inv_D [OF assms(1)]
  show ?thesis
    unfolding session_inv_def w assms(2,3,4)
  proof (intro conjI)
    show "\<forall>h i. (h, i) \<in> waiting s \<longrightarrow>
            h < length (s_requests s) \<and> rq_p (s_requests s' ! h) = Unsettled
            \<and> rq_id (s_requests s' ! h) = i"
      using d(5) assms(5) by auto
  qed (use d in blast)+
qed


lemma send_command_effect:
  assumes "s_alive s" and "send_command data name timeout s = Some (s', h)"
  shows "\<exists>ident c'. probe_id (s_inflight s) name (s_command_id s) = Some (ident, c')
           \<and> h = length (s_requests s)
           \<and> s_eventer s' = s_eventer s @ [(ident, True, Waiter h ident)]
           \<and> s_inflight s' = s_inflight s @ [ident]
           \<and> s_requests s' = s_requests s @ [new_request ident timeout]
           \<and> s_command_id s' = c'
           \<and> s_alive s' = s_alive s"
  using assms by (auto simp: send_command_def Let_def split: option.splits)

lemma send_command_dead:
  assumes "\<not> s_alive s" and "send_command data name timeout s = Some (s', h)"
  shows "s_eventer s' = s_eventer s \<and> s_inflight s' = s_inflight s
       \<and> s_requests s' = s_requests s @ [rejected_request [] timeout]"
  using assms by (auto simp: send_command_def)

lemma inv_append_request:
  assumes inv: "session_inv s"
    and "s_eventer s' = s_eventer s" and "s_inflight s' = s_inflight s"
    and "s_requests s' = s_requests s @ [r]"
  shows "session_inv s'"
proof -
  note w = waiting_eventer_cong [OF assms(2)]
  note d = inv_D [OF inv]
  show ?thesis
    unfolding session_inv_def w assms(2,3,4)
  proof (intro conjI)
    show "\<forall>h i. (h, i) \<in> waiting s \<longrightarrow>
            h < length (s_requests s @ [r]) \<and> rq_p ((s_requests s @ [r]) ! h) = Unsettled
            \<and> rq_id ((s_requests s @ [r]) ! h) = i"
    proof (intro allI impI)
      fix h i assume "(h, i) \<in> waiting s"
      with d(5) have "h < length (s_requests s)" "rq_p (s_requests s ! h) = Unsettled"
        "rq_id (s_requests s ! h) = i" by blast+
      then show "h < length (s_requests s @ [r]) \<and> rq_p ((s_requests s @ [r]) ! h) = Unsettled
            \<and> rq_id ((s_requests s @ [r]) ! h) = i"
        by (simp add: nth_append)
    qed
    show "\<forall>h\<in>waiting_no_id s. h < length (s_requests s @ [r]) \<and> h \<notin> fst ` waiting s"
    proof
      fix h assume "h \<in> waiting_no_id s"
      with d(6) have "h < length (s_requests s)" "h \<notin> fst ` waiting s" by blast+
      then show "h < length (s_requests s @ [r]) \<and> h \<notin> fst ` waiting s" by simp
    qed
  qed (use d in blast)+
qed

lemma send_command_inv:
  assumes inv: "session_inv s" and sc: "send_command data name timeout s = Some (s', h)"
  shows "session_inv s'"
proof (cases "s_alive s")
  case False
  from send_command_dead [OF False sc] show ?thesis
    using inv_append_request [OF inv] by blast
next
  case True
  from send_command_effect [OF True sc] obtain ident c' where
    p: "probe_id (s_inflight s) name (s_command_id s) = Some (ident, c')"
    and h: "h = length (s_requests s)"
    and ev: "s_eventer s' = s_eventer s @ [(ident, True, Waiter h ident)]"
    and infl: "s_inflight s' = s_inflight s @ [ident]"
    and rq: "s_requests s' = s_requests s @ [new_request ident timeout]"
    by blast
  note w = waiting_snoc_waiter [OF ev]
  note d = inv_D [OF inv]
  have pr: "ident \<notin> set (s_inflight s) \<and> ident = command_name name c' \<and> c' < id_modulus"
    using probe_id_result [OF p] unfolding fst_conv snd_conv .
  then have fresh: "ident \<notin> set (s_inflight s)" and nm: "ident = command_name name c'"
    by blast+
  have fresh_w: "(k, ident) \<notin> waiting s" for k
    using fresh d(4) by force
  have old_h: "k < h" if "(k, i) \<in> waiting s" for k i
    using that d(5) h by blast
  show ?thesis
    unfolding session_inv_def w
  proof (intro conjI allI impI ballI)
    fix n once k i
    assume "(n, once, Waiter k i) \<in> set (s_eventer s')"
    then have "(n, once, Waiter k i) \<in> set (s_eventer s) \<or> (n, once, Waiter k i) = (ident, True, Waiter h ident)"
      unfolding ev by auto
    then show "n = i" "once" using d(1) by blast+
  next
    fix k k' i
    assume "(k, i) \<in> insert (h, ident) (waiting s)" "(k', i) \<in> insert (h, ident) (waiting s)"
    then show "k = k'" using d(2) fresh_w by blast
  next
    fix k i i'
    assume "(k, i) \<in> insert (h, ident) (waiting s)" "(k, i') \<in> insert (h, ident) (waiting s)"
    then show "i = i'" using d(3) old_h by blast
  next
    show "snd ` insert (h, ident) (waiting s) = set (s_inflight s')"
      unfolding infl using d(4) by simp
  next
    fix k i
    assume a: "(k, i) \<in> insert (h, ident) (waiting s)"
    then consider "k = h" "i = ident" | "(k, i) \<in> waiting s" by blast
    then have "k < length (s_requests s') \<and> rq_p (s_requests s' ! k) = Unsettled
                 \<and> rq_id (s_requests s' ! k) = i"
    proof cases
      case 1
      then show ?thesis unfolding rq h by (simp add: new_request_def)
    next
      case 2
      with d(5) have "k < length (s_requests s)" "rq_p (s_requests s ! k) = Unsettled"
        "rq_id (s_requests s ! k) = i" by blast+
      then show ?thesis unfolding rq by (simp add: nth_append)
    qed
    then show "k < length (s_requests s')" "rq_p (s_requests s' ! k) = Unsettled"
      "rq_id (s_requests s' ! k) = i" by blast+
  next
    fix k
    assume a: "k \<in> waiting_no_id s"
    with d(6) have x: "k < length (s_requests s)" "k \<notin> fst ` waiting s" by blast+
    show "k < length (s_requests s')" using x unfolding rq by simp
    show "k \<notin> fst ` insert (h, ident) (waiting s)" using x h by simp
  next
    fix k i
    assume "(k, i) \<in> insert (h, ident) (waiting s)"
    then show "take 9 i = ''meshctrl_''"
      using d(7) nm command_name_prefix by blast
  next
    fix n once f flt
    assume "(n, once, EventCallback f flt) \<in> set (s_eventer s')"
    then have "(n, once, EventCallback f flt) \<in> set (s_eventer s)" unfolding ev by simp
    then show "n = ''server_event''" using d(8) by blast
  qed
qed

lemma send_command_no_response_id_inv:
  assumes inv: "session_inv s" and sc: "send_command_no_response_id data timeout s = Inr (s', h)"
  shows "session_inv s'"
proof (cases "s_alive s")
  case False
  with sc have "s_eventer s' = s_eventer s \<and> s_inflight s' = s_inflight s
       \<and> s_requests s' = s_requests s @ [rejected_request [] timeout]"
    by (auto simp: send_command_no_response_id_def)
  then show ?thesis using inv_append_request [OF inv] by blast
next
  case True
  with sc obtain action where
    h: "h = length (s_requests s)"
    and ev: "s_eventer s' = s_eventer s @ [(js_toString action, True, WaiterNoId h)]"
    and infl: "s_inflight s' = s_inflight s"
    and rq: "s_requests s' = s_requests s @ [new_request (js_toString action) timeout]"
    by (auto simp: send_command_no_response_id_def Let_def split: sum.splits)
  note w = waiting_snoc_no_id [OF ev]
  note d = inv_D [OF inv]
  show ?thesis
    unfolding session_inv_def w
  proof (intro conjI allI impI ballI)
    fix n once k i
    assume "(n, once, Waiter k i) \<in> set (s_eventer s')"
    then have "(n, once, Waiter k i) \<in> set (s_eventer s)" unfolding ev by simp
    then show "n = i" "once" using d(1) by blast+
  next
    fix k k' i
    assume "(k, i) \<in> waiting s" "(k', i) \<in> waiting s"
    then show "k = k'" using d(2) by blast
  next
    fix k i i'
    assume "(k, i) \<in> waiting s" "(k, i') \<in> waiting s"
    then show "i = i'" using d(3) by blast
  next
    show "snd ` waiting s = set (s_inflight s')"
      unfolding infl using d(4) by simp
  next
    fix k i
    assume a: "(k, i) \<in> waiting s"
    with d(5) have x: "k < length (s_requests s)" "rq_p (s_requests s ! k) = Unsettled"
      "rq_id (s_requests s ! k) = i" by blast+
    show "k < length (s_requests s')" using x unfolding rq by simp
    show "rq_p (s_requests s' ! k) = Unsettled" using x unfolding rq by (simp add: nth_append)
    show "rq_id (s_requests s' ! k) = i" using x unfolding rq by (simp add: nth_append)
  next
    fix k
    assume a: "k \<in> insert h (waiting_no_id s)"
    then consider "k = h" | "k \<in> waiting_no_id s" by blast
    then have "k < length (s_requests s') \<and> k \<notin> fst ` waiting s"
    proof cases
      case 1
      have "h \<notin> fst ` waiting s"
      proof
        assume "h \<in> fst ` waiting s"
        then obtain i where "(h, i) \<in> waiting s" by force
        with d(5) have "h < length (s_requests s)" by blast
        then show False using h by simp
      qed
      then show ?thesis using 1 h unfolding rq by simp
    next
      case 2
      with d(6) have "k < length (s_requests s)" "k \<notin> fst ` waiting s" by blast+
      then show ?thesis unfolding rq by simp
    qed
    then show "k < length (s_requests s')" "k \<notin> fst ` waiting s" by blast+
  next
    fix k i
    assume "(k, i) \<in> waiting s"
    then show "take 9 i = ''meshctrl_''" using d(7) by blast
  next
    fix n once f flt
    assume "(n, once, EventCallback f flt) \<in> set (s_eventer s')"
    then have "(n, once, EventCallback f flt) \<in> set (s_eventer s)" unfolding ev by simp
    then show "n = ''server_event''" using d(8) by blast
  qed
qed


lemma inv_eventer_change:
  assumes inv: "session_inv s"
    and wt: "\<And>n once h i. (n, once, Waiter h i) \<in> set (s_eventer s')
                \<longleftrightarrow> (n, once, Waiter h i) \<in> set (s_eventer s)"
    and nt: "\<And>n once h. (n, once, WaiterNoId h) \<in> set (s_eventer s')
                \<longleftrightarrow> (n, once, WaiterNoId h) \<in> set (s_eventer s)"
    and cb: "\<And>n once f flt. (n, once, EventCallback f flt) \<in> set (s_eventer s')
                \<Longrightarrow> n = ''server_event''"
    and "s_inflight s' = s_inflight s"
    and "s_requests s' = s_requests s"
  shows "session_inv s'"
proof -
  have w: "waiting s' = waiting s" "waiting_no_id s' = waiting_no_id s"
    unfolding waiting_def waiting_no_id_def wt nt by simp_all
  note d = inv_D [OF inv]
  show ?thesis
    unfolding session_inv_def w assms(5,6) wt
  proof (intro conjI)
    show "\<forall>n once f flt. (n, once, EventCallback f flt) \<in> set (s_eventer s') \<longrightarrow> n = ''server_event''"
      using cb by blast
  qed (use d in blast)+
qed

lemma on_open_inv: "session_inv s \<Longrightarrow> session_inv (on_open s)"
  by (rule session_inv_cong [where s = s]) (simp_all add: on_open_def)

lemma session_close_inv: "session_inv s \<Longrightarrow> session_inv (session_close s)"
  by (rule session_inv_cong [where s = s]) (simp_all add: session_close_def)

lemma cache_tunnel_inv: "session_inv s \<Longrightarrow> session_inv (cache_tunnel c key t s)"
  by (rule session_inv_cong [where s = s]) (simp_all add: cache_tunnel_def split: cache.splits)

lemma close_tunnels_inv: "session_inv s \<Longrightarrow> session_inv (close_tunnels s)"
  by (rule session_inv_cong [where s = s]) (simp_all add: close_tunnels_def)

lemma timer_fires_inv: "session_inv s \<Longrightarrow> session_inv (timer_fires h s)"
  by (rule session_inv_cong [where s = s]) (simp_all add: timer_fires_def Let_def nth_list_update)

lemma add_close_callback_inv: "session_inv s \<Longrightarrow> session_inv (add_close_callback f s)"
  by (rule inv_eventer_change [where s = s]) (auto simp: add_close_callback_def dest: inv_callback)

lemma listen_to_events_inv: "session_inv s \<Longrightarrow> session_inv (listen_to_events f flt s)"
  by (rule inv_eventer_change [where s = s]) (auto simp: listen_to_events_def dest: inv_callback)

lemma stop_listening_to_events_inv:
  "session_inv s \<Longrightarrow> session_inv (stop_listening_to_events f flt s)"
proof (rule inv_eventer_change [where s = s])
  assume inv: "session_inv s"
  fix n once f' flt'
  assume "(n, once, EventCallback f' flt') \<in> set (s_eventer (stop_listening_to_events f flt s))"
  then have "(n, once, EventCallback f' flt') \<in> set (remove1 (''server_event'', False, EventCallback f flt) (rev (s_eventer s)))"
    by (simp add: stop_listening_to_events_def)
  then have "(n, once, EventCallback f' flt') \<in> set (rev (s_eventer s))"
    using set_remove1_subset by fastforce
  then have "(n, once, EventCallback f' flt') \<in> set (s_eventer s)" by simp
  then show "n = ''server_event''" using inv_callback [OF inv] by blast
qed (simp_all add: stop_listening_to_events_def in_set_remove1)

text \<open>The loop over the ids in flight.\<close>

lemma emit_ok:
  assumes "\<not> nullish (payload_value a)" and "name \<noteq> ''error''"
  shows "\<exists>s'. emit name a s = Inr s'"
  using assms invoke_all_ok [OF assms(1)] by (simp add: emit_unfold)

lemma filter_removeAll: "filter P (removeAll x xs) = filter (\<lambda>i. i \<noteq> x \<and> P i) xs"
  by (induction xs) auto

lemma emit_steady:
  assumes "emit name a s = Inr s'"
  shows "(n, False, l) \<in> set (s_eventer s') \<longleftrightarrow> (n, False, l) \<in> set (s_eventer s)"
    and "\<forall>k < length (s_requests s).
           rq_p (s_requests s' ! k) = rq_p (s_requests s ! k)
           \<or> rq_p (s_requests s' ! k) = settle_p a (rq_p (s_requests s ! k))"
    and "\<forall>k < length (s_requests s).
           rq_result (s_requests s' ! k) = rq_result (s_requests s ! k)
           \<or> rq_result (s_requests s' ! k) = settle_p a (rq_result (s_requests s ! k))"
proof -
  note ef = emit_effect [OF assms]
  have ev: "s_eventer s' = filter (\<lambda>(n, once, l). \<not> (n = name \<and> once)) (s_eventer s)"
    using ef by blast
  show "(n, False, l) \<in> set (s_eventer s') \<longleftrightarrow> (n, False, l) \<in> set (s_eventer s)"
    unfolding ev filtered_reg by simp
  have ps: "\<forall>k < length (s_requests s). rq_p (s_requests s' ! k)
             = (if Some k \<in> listener_handle ` set (called name s)
                then settle_p a (rq_p (s_requests s ! k)) else rq_p (s_requests s ! k))"
    using ef by blast
  show "\<forall>k < length (s_requests s).
           rq_p (s_requests s' ! k) = rq_p (s_requests s ! k)
           \<or> rq_p (s_requests s' ! k) = settle_p a (rq_p (s_requests s ! k))"
  proof (intro allI impI)
    fix k assume "k < length (s_requests s)"
    with ps show "rq_p (s_requests s' ! k) = rq_p (s_requests s ! k)
           \<or> rq_p (s_requests s' ! k) = settle_p a (rq_p (s_requests s ! k))"
      by (cases "Some k \<in> listener_handle ` set (called name s)") simp_all
  qed
  have qs: "\<forall>k < length (s_requests s). rq_result (s_requests s' ! k)
             = (if Some k \<in> listener_handle ` set (called name s)
                then settle_p a (rq_result (s_requests s ! k)) else rq_result (s_requests s ! k))"
    using ef by blast
  show "\<forall>k < length (s_requests s).
           rq_result (s_requests s' ! k) = rq_result (s_requests s ! k)
           \<or> rq_result (s_requests s' ! k) = settle_p a (rq_result (s_requests s ! k))"
  proof (intro allI impI)
    fix k assume "k < length (s_requests s)"
    with qs show "rq_result (s_requests s' ! k) = rq_result (s_requests s ! k)
           \<or> rq_result (s_requests s' ! k) = settle_p a (rq_result (s_requests s ! k))"
      by (cases "Some k \<in> listener_handle ` set (called name s)") simp_all
  qed
qed

lemma fanned_D:
  assumes "fanned ids a s s'"
  shows "session_inv s'"
    and "s_inflight s' = filter (\<lambda>i. i \<notin> set ids) (s_inflight s)"
    and "\<forall>h i. (h, i) \<in> waiting s' \<longleftrightarrow> (h, i) \<in> waiting s \<and> i \<notin> set ids"
    and "\<forall>h i. (h, i) \<in> waiting s \<longrightarrow> i \<in> set ids \<longrightarrow>
           rq_p (s_requests s' ! h) = settle_p a Unsettled"
    and "\<forall>k < length (s_requests s).
           rq_p (s_requests s' ! k) = rq_p (s_requests s ! k)
           \<or> rq_p (s_requests s' ! k) = settle_p a (rq_p (s_requests s ! k))"
    and "\<forall>n l. (n, False, l) \<in> set (s_eventer s') \<longleftrightarrow> (n, False, l) \<in> set (s_eventer s)"
    and "s_alive s' = s_alive s" and "s_initialized s' = s_initialized s"
    and "s_file_tunnels s' = s_file_tunnels s"
    and "s_shell_tunnels s' = s_shell_tunnels s"
    and "s_smart_shell_tunnels s' = s_smart_shell_tunnels s"
    and "s_tunnel_close_calls s' = s_tunnel_close_calls s"
    and "length (s_requests s') = length (s_requests s)"
    and "\<forall>h i. (h, i) \<in> waiting s \<longrightarrow> i \<in> set ids \<longrightarrow>
           rq_result (s_requests s' ! h) = settle_p a (rq_result (s_requests s ! h))"
    and "\<forall>k < length (s_requests s).
           rq_result (s_requests s' ! k) = rq_result (s_requests s ! k)
           \<or> rq_result (s_requests s' ! k) = settle_p a (rq_result (s_requests s ! k))"
  using assms unfolding fanned_def by - (elim conjE, assumption)+

lemma fanned_Nil: "session_inv s \<Longrightarrow> fanned [] a s s"
  unfolding fanned_def by simp

lemma fanned_skip:
  assumes f: "fanned ids a s s'" and inv: "session_inv s" and x: "x \<notin> set (s_inflight s)"
  shows "fanned (x # ids) a s s'"
proof -
  note d = fanned_D [OF f]
  have nx: "(h, x) \<notin> waiting s" for h
    using x inv_inflight [OF inv] by force
  have 1: "s_inflight s' = filter (\<lambda>i. i \<notin> set (x # ids)) (s_inflight s)"
    unfolding d(2) using x by (auto intro: filter_cong)
  have 2: "\<forall>h i. (h, i) \<in> waiting s' \<longleftrightarrow> (h, i) \<in> waiting s \<and> i \<notin> set (x # ids)"
    using d(3) nx by auto
  have 3: "\<forall>h i. (h, i) \<in> waiting s \<longrightarrow> i \<in> set (x # ids) \<longrightarrow>
               rq_p (s_requests s' ! h) = settle_p a Unsettled"
    using d(4) nx by auto
  have 14: "\<forall>h i. (h, i) \<in> waiting s \<longrightarrow> i \<in> set (x # ids) \<longrightarrow>
               rq_result (s_requests s' ! h) = settle_p a (rq_result (s_requests s ! h))"
    using d(14) nx by auto
  show ?thesis
    unfolding fanned_def using d(1,5-13,15) 1 2 3 14 by blast
qed

lemma fanned_step:
  assumes inv: "session_inv s" and e: "emit x a s = Inr s1" and f: "fanned ids a s1 s'"
  shows "fanned (x # ids) a s s'"
proof -
  note d = fanned_D [OF f]
  note ei = emit_inv [OF inv e]
  note ef = emit_effect [OF e]
  note es = emit_steady [OF e]
  have len: "length (s_requests s1) = length (s_requests s)" using ef by blast
  have 1: "s_inflight s' = filter (\<lambda>i. i \<notin> set (x # ids)) (s_inflight s)"
    unfolding d(2) ei(3) filter_removeAll by (rule filter_cong) auto
  have 2: "\<forall>h i. (h, i) \<in> waiting s' \<longleftrightarrow> (h, i) \<in> waiting s \<and> i \<notin> set (x # ids)"
    using d(3) ei(2) by auto
  have 5: "\<forall>k < length (s_requests s).
           rq_p (s_requests s' ! k) = rq_p (s_requests s ! k)
           \<or> rq_p (s_requests s' ! k) = settle_p a (rq_p (s_requests s ! k))"
  proof (intro allI impI)
    fix k assume k: "k < length (s_requests s)"
    then have k1: "k < length (s_requests s1)" using len by simp
    from es(2) k have "rq_p (s_requests s1 ! k) = rq_p (s_requests s ! k)
           \<or> rq_p (s_requests s1 ! k) = settle_p a (rq_p (s_requests s ! k))" by blast
    moreover from d(5) k1 have "rq_p (s_requests s' ! k) = rq_p (s_requests s1 ! k)
           \<or> rq_p (s_requests s' ! k) = settle_p a (rq_p (s_requests s1 ! k))" by blast
    ultimately show "rq_p (s_requests s' ! k) = rq_p (s_requests s ! k)
           \<or> rq_p (s_requests s' ! k) = settle_p a (rq_p (s_requests s ! k))"
      by (metis settle_p_idem)
  qed
  have 3: "\<forall>h i. (h, i) \<in> waiting s \<longrightarrow> i \<in> set (x # ids) \<longrightarrow>
               rq_p (s_requests s' ! h) = settle_p a Unsettled"
  proof (intro allI impI)
    fix h i assume w: "(h, i) \<in> waiting s" and i: "i \<in> set (x # ids)"
    show "rq_p (s_requests s' ! h) = settle_p a Unsettled"
    proof (cases "i = x")
      case True
      with w ei(4) have v: "rq_p (s_requests s1 ! h) = settle_p a Unsettled" by blast
      have "h < length (s_requests s1)" using inv_waiting_request [OF inv w] len by simp
      with d(5) have "rq_p (s_requests s' ! h) = rq_p (s_requests s1 ! h)
           \<or> rq_p (s_requests s' ! h) = settle_p a (rq_p (s_requests s1 ! h))" by blast
      then show ?thesis unfolding v by (metis settle_p_idem)
    next
      case False
      with w i ei(2) have "(h, i) \<in> waiting s1" "i \<in> set ids" by auto
      with d(4) show ?thesis by blast
    qed
  qed
  have 15: "\<forall>k < length (s_requests s).
           rq_result (s_requests s' ! k) = rq_result (s_requests s ! k)
           \<or> rq_result (s_requests s' ! k) = settle_p a (rq_result (s_requests s ! k))"
  proof (intro allI impI)
    fix k assume k: "k < length (s_requests s)"
    then have k1: "k < length (s_requests s1)" using len by simp
    from es(3) k have "rq_result (s_requests s1 ! k) = rq_result (s_requests s ! k)
           \<or> rq_result (s_requests s1 ! k) = settle_p a (rq_result (s_requests s ! k))" by blast
    moreover from d(15) k1 have "rq_result (s_requests s' ! k) = rq_result (s_requests s1 ! k)
           \<or> rq_result (s_requests s' ! k) = settle_p a (rq_result (s_requests s1 ! k))" by blast
    ultimately show "rq_result (s_requests s' ! k) = rq_result (s_requests s ! k)
           \<or> rq_result (s_requests s' ! k) = settle_p a (rq_result (s_requests s ! k))"
      by (metis settle_p_idem)
  qed
  have 14: "\<forall>h i. (h, i) \<in> waiting s \<longrightarrow> i \<in> set (x # ids) \<longrightarrow>
               rq_result (s_requests s' ! h) = settle_p a (rq_result (s_requests s ! h))"
  proof (intro allI impI)
    fix h i assume w: "(h, i) \<in> waiting s" and i: "i \<in> set (x # ids)"
    show "rq_result (s_requests s' ! h) = settle_p a (rq_result (s_requests s ! h))"
    proof (cases "i = x")
      case True
      with w ei(6) have v: "rq_result (s_requests s1 ! h) = settle_p a (rq_result (s_requests s ! h))"
        by blast
      have "h < length (s_requests s1)" using inv_waiting_request [OF inv w] len by simp
      with d(15) have "rq_result (s_requests s' ! h) = rq_result (s_requests s1 ! h)
           \<or> rq_result (s_requests s' ! h) = settle_p a (rq_result (s_requests s1 ! h))" by blast
      then show ?thesis unfolding v by (metis settle_p_idem)
    next
      case False
      with w i ei(2) have m: "(h, i) \<in> waiting s1" "i \<in> set ids" by auto
      from ei(7) [OF w False] have "rq_result (s_requests s1 ! h) = rq_result (s_requests s ! h)" .
      with d(14) m show ?thesis by metis
    qed
  qed
  have 6: "\<forall>n l. (n, False, l) \<in> set (s_eventer s') \<longleftrightarrow> (n, False, l) \<in> set (s_eventer s)"
    using d(6) es(1) by blast
  have 7: "s_alive s' = s_alive s" "s_initialized s' = s_initialized s"
    "s_file_tunnels s' = s_file_tunnels s" "s_shell_tunnels s' = s_shell_tunnels s"
    "s_smart_shell_tunnels s' = s_smart_shell_tunnels s"
    "s_tunnel_close_calls s' = s_tunnel_close_calls s"
    "length (s_requests s') = length (s_requests s)"
    using d(7-13) ef by simp_all
  show ?thesis
    unfolding fanned_def using d(1) 1 2 3 5 6 7 14 15 by blast
qed

lemma emit_inflight_fanned:
  assumes "session_inv s" and "\<not> nullish (payload_value a)" and "''error'' \<notin> set ids"
  shows "\<exists>s'. emit_inflight ids a s = Inr s' \<and> fanned ids a s s'"
  using assms
proof (induction ids arbitrary: s)
  case Nil
  then show ?case by (simp add: fanned_Nil)
next
  case (Cons x ids)
  show ?case
  proof (cases "x \<in> set (s_inflight s)")
    case False
    from Cons.IH [of s] Cons.prems obtain s' where
      r: "emit_inflight ids a s = Inr s'" "fanned ids a s s'" by auto
    from fanned_skip [OF r(2) Cons.prems(1) False] r(1) False show ?thesis by simp
  next
    case True
    have "x \<noteq> ''error''" using Cons.prems(3) by auto
    from emit_ok [OF Cons.prems(2) this, of s] obtain s1 where e: "emit x a s = Inr s1" by blast
    note ei = emit_inv [OF Cons.prems(1) e]
    from Cons.IH [OF ei(1) Cons.prems(2)] Cons.prems(3) obtain s' where
      r: "emit_inflight ids a s1 = Inr s'" "fanned ids a s1 s'" by auto
    from fanned_step [OF Cons.prems(1) e r(2)] r(1) e True show ?thesis by simp
  qed
qed


lemma inv_id_prefix:
  assumes "session_inv s" and "i \<in> set (s_inflight s)"
  shows "take 9 i = ''meshctrl_''"
proof -
  from assms inv_inflight [OF assms(1)] obtain h where "(h, i) \<in> waiting s" by force
  then show ?thesis using inv_prefix [OF assms(1)] by blast
qed

lemma inv_no_error_id: "session_inv s \<Longrightarrow> ''error'' \<notin> set (s_inflight s)"
  using inv_id_prefix [of s "''error''"] by auto

lemma settle_p_Exn: "settle_p (Exn e) Unsettled = Failed (Exn e)"
  by (simp add: settle_p_def instanceof_Error_def reject_def)


lemma on_close_effect:
  assumes inv: "session_inv s"
  shows "\<exists>s'. on_close s = Inr s' \<and> session_inv s'
          \<and> s_inflight s' = [] \<and> waiting s' = {} \<and> \<not> s_alive s'
          \<and> s_initialized s' = (if resolved (s_initialized s) then s_initialized s
                                  else reject (s_initialized s) (Data (JStr ''Closed'')))
          \<and> (\<forall>h i. (h, i) \<in> waiting s \<longrightarrow>
                rq_p (s_requests s' ! h) = Failed (Exn (SocketError ''Socket Closed''))
                \<and> rq_result (s_requests s' ! h)
                    = settle_p (Exn (SocketError ''Socket Closed'')) (rq_result (s_requests s ! h)))
          \<and> (\<forall>f. (''close'', False, CloseCallback f) \<in> set (s_eventer s) \<longrightarrow>
                (f, Exn (SocketError ''Socket Closed'')) \<in> set (s_calls s'))
          \<and> s_tunnel_close_calls s' = s_tunnel_close_calls s
                @ map snd (s_file_tunnels s) @ map snd (s_shell_tunnels s)
                @ map snd (s_smart_shell_tunnels s)"
proof -
  let ?a = "Exn (SocketError ''Socket Closed'')"
  define s0 where "s0 = (if \<not> resolved (s_initialized s)
               then s\<lparr>s_initialized := reject (s_initialized s) (Data (JStr ''Closed''))\<rparr> else s)
                 \<lparr>s_alive := False\<rparr>"
  have s0: "s_eventer s0 = s_eventer s" "s_inflight s0 = s_inflight s" "s_requests s0 = s_requests s"
    "s_alive s0 = False" "s_file_tunnels s0 = s_file_tunnels s" "s_shell_tunnels s0 = s_shell_tunnels s"
    "s_smart_shell_tunnels s0 = s_smart_shell_tunnels s" "s_tunnel_close_calls s0 = s_tunnel_close_calls s"
    "s_initialized s0 = (if resolved (s_initialized s) then s_initialized s
                         else reject (s_initialized s) (Data (JStr ''Closed'')))"
    by (simp_all add: s0_def)
  have inv0: "session_inv s0"
    by (rule session_inv_cong [OF inv]) (simp_all add: s0)
  have w0: "waiting s0 = waiting s" using waiting_eventer_cong(1) [OF s0(1)] .
  have nn: "\<not> nullish (payload_value ?a)" by (simp add: payload_value_def nullish_def)
  have "''error'' \<notin> set (s_inflight s0)" using inv_no_error_id [OF inv0] .
  from emit_inflight_fanned [OF inv0 nn this] obtain s1 where
    l: "emit_inflight (s_inflight s0) ?a s0 = Inr s1" and f: "fanned (s_inflight s0) ?a s0 s1"
    by blast
  note d = fanned_D [OF f]
  have infl1: "s_inflight s1 = []" unfolding d(2) by simp
  have w1: "waiting s1 = {}"
  proof -
    have "(h, i) \<notin> waiting s1" for h i
    proof
      assume "(h, i) \<in> waiting s1"
      with d(3) have "(h, i) \<in> waiting s0" "i \<notin> set (s_inflight s0)" by blast+
      then show False using inv_inflight [OF inv0] by force
    qed
    then show ?thesis by auto
  qed
  have "''close'' \<noteq> ''error''" by simp
  from emit_ok [OF nn this, of s1] obtain s2 where e: "emit ''close'' ?a s1 = Inr s2" by blast
  note ei = emit_inv [OF d(1) e]
  note ef = emit_effect [OF e]
  note es = emit_steady [OF e]
  have infl2: "s_inflight s2 = []" unfolding ei(3) infl1 by simp
  have w2: "waiting s2 = {}" using ei(2) w1 by auto
  have oc: "on_close s = Inr (close_tunnels s2)"
    using l e unfolding on_close_def Let_def s0_def [symmetric] by simp
  have len: "length (s_requests s1) = length (s_requests s)" using d(13) s0(3) by simp
  have req: "rq_p (s_requests (close_tunnels s2) ! h) = Failed ?a
           \<and> rq_result (s_requests (close_tunnels s2) ! h) = settle_p ?a (rq_result (s_requests s ! h))"
    if w: "(h, i) \<in> waiting s" for h i
  proof -
    have m: "(h, i) \<in> waiting s0" "i \<in> set (s_inflight s0)"
      using w w0 inv_inflight [OF inv0] by force+
    have hl: "h < length (s_requests s1)" using inv_waiting_request [OF inv w] len by simp
    from d(4) m have p1: "rq_p (s_requests s1 ! h) = Failed ?a" by (simp add: settle_p_Exn)
    from d(14) m have r1: "rq_result (s_requests s1 ! h) = settle_p ?a (rq_result (s_requests s ! h))"
      by (simp add: s0(3))
    from es(2) hl have "rq_p (s_requests s2 ! h) = rq_p (s_requests s1 ! h)
        \<or> rq_p (s_requests s2 ! h) = settle_p ?a (rq_p (s_requests s1 ! h))" by blast
    then have p2: "rq_p (s_requests s2 ! h) = Failed ?a"
      unfolding p1 by (auto simp: settle_p_def reject_def instanceof_Error_def)
    from es(3) hl have "rq_result (s_requests s2 ! h) = rq_result (s_requests s1 ! h)
        \<or> rq_result (s_requests s2 ! h) = settle_p ?a (rq_result (s_requests s1 ! h))" by blast
    then have r2: "rq_result (s_requests s2 ! h) = settle_p ?a (rq_result (s_requests s ! h))"
      unfolding r1 by (metis settle_p_idem)
    show ?thesis using p2 r2 by (simp add: close_tunnels_def)
  qed
  have calls: "(f, ?a) \<in> set (s_calls (close_tunnels s2))"
    if c: "(''close'', False, CloseCallback f) \<in> set (s_eventer s)" for f
  proof -
    from c d(6) s0(1) have "(''close'', False, CloseCallback f) \<in> set (s_eventer s1)" by simp
    then have "CloseCallback f \<in> set (called ''close'' s1)" unfolding called_iff by blast
    moreover from ef obtain cs where "s_calls s2 = s_calls s1 @ cs"
      "\<forall>f. CloseCallback f \<in> set (called ''close'' s1) \<longrightarrow> (f, ?a) \<in> set cs" by blast
    ultimately show ?thesis by (simp add: close_tunnels_def)
  qed
  have tun: "s_tunnel_close_calls (close_tunnels s2) = s_tunnel_close_calls s
                @ map snd (s_file_tunnels s) @ map snd (s_shell_tunnels s)
                @ map snd (s_smart_shell_tunnels s)"
    using ef d(9-12) s0(5-8) by (simp add: close_tunnels_def)
  have al: "\<not> s_alive (close_tunnels s2)"
    using ef d(7) s0(4) by (simp add: close_tunnels_def)
  have ini: "s_initialized (close_tunnels s2) = (if resolved (s_initialized s) then s_initialized s
                                  else reject (s_initialized s) (Data (JStr ''Closed'')))"
    using ef d(8) s0(9) by (simp add: close_tunnels_def)
  have inv3: "session_inv (close_tunnels s2)" using close_tunnels_inv [OF ei(1)] .
  have w3: "waiting (close_tunnels s2) = {}" "s_inflight (close_tunnels s2) = []"
    using w2 infl2 by (simp_all add: close_tunnels_def waiting_def)
  show ?thesis
    using oc inv3 w3 al ini req calls tun by blast
qed

lemma on_error_inv:
  assumes inv: "session_inv s" and e: "on_error code s = Inr s'"
  shows "session_inv s'"
proof -
  let ?a = "Exn (SocketError ''Socket Error'')"
  define s0 where "s0 = s\<lparr>s_socket_open := reject (s_socket_open s) (Data code),
      s_initialized := reject (s_initialized s) (Data code), s_alive := False\<rparr>"
  have inv0: "session_inv s0"
    by (rule session_inv_cong [OF inv]) (simp_all add: s0_def)
  have nn: "\<not> nullish (payload_value ?a)" by (simp add: payload_value_def nullish_def)
  from emit_inflight_fanned [OF inv0 nn inv_no_error_id [OF inv0]] obtain s1 where
    l: "emit_inflight (s_inflight s0) ?a s0 = Inr s1" and f: "fanned (s_inflight s0) ?a s0 s1"
    by blast
  have "emit ''close'' ?a s1 = Inr s'"
    using e l unfolding on_error_def Let_def by (simp add: s0_def)
  from emit_inv(1) [OF fanned_D(1) [OF f] this] show ?thesis .
qed


lemma js_get_nullish: "js_get v k = Inr x \<Longrightarrow> \<not> nullish v"
  by (cases v) (auto simp: js_get_def nullish_def)

lemma receive_message_cases:
  assumes "receive_message p raw s = Inr s'"
  shows "\<exists>s1. emit ''raw'' (Data JNull) s = Inr s1
           \<and> ((p raw = None \<and> s' = s1)
              \<or> (\<exists>data. p raw = Some data \<and> bootstrap_message data
                   \<and> s_eventer s' = s_eventer s1 \<and> s_inflight s' = s_inflight s1
                   \<and> s_requests s' = s_requests s1)
              \<or> (\<exists>data s2. p raw = Some data \<and> \<not> bootstrap_message data \<and> \<not> nullish data
                   \<and> (s2 = s1 \<or> emit ''server_event'' (Data data) s1 = Inr s2)
                   \<and> emit (reply_key data) (Data data) s2 = Inr s'))"
proof -
  from assms obtain s1 where e1: "emit ''raw'' (Data JNull) s = Inr s1"
    by (auto simp: receive_message_def split: sum.splits)
  show ?thesis
  proof (cases "p raw")
    case None
    with assms e1 show ?thesis by (simp add: receive_message_def)
  next
    case (Some data)
    with assms e1 obtain action where a: "js_get data ''action'' = Inr action"
      by (auto simp: receive_message_def split: sum.splits)
    note nn = js_get_nullish [OF a]
    from js_get_total [OF nn] obtain r where r: "js_get data ''responseid'' = Inr r" by blast
    from js_get_total [OF nn] obtain t where t: "js_get data ''tag'' = Inr t" by blast
    show ?thesis
    proof (cases "loose_eq action ''serverinfo''")
      case True
      with assms e1 Some a have "s_eventer s' = s_eventer s1 \<and> s_inflight s' = s_inflight s1
                   \<and> s_requests s' = s_requests s1"
        by (auto simp: receive_message_def split: sum.splits)
      moreover have "bootstrap_message data" using a True by (simp add: bootstrap_message_def)
      ultimately show ?thesis using e1 Some by blast
    next
      case False
      note ns = this
      show ?thesis
      proof (cases "loose_eq action ''userinfo''")
        case True
        with assms e1 Some a ns have "s_eventer s' = s_eventer s1 \<and> s_inflight s' = s_inflight s1
                   \<and> s_requests s' = s_requests s1"
          by (auto simp: receive_message_def split: sum.splits)
        moreover have "bootstrap_message data" using a True by (simp add: bootstrap_message_def)
        ultimately show ?thesis using e1 Some by blast
      next
        case False
        have nb: "\<not> bootstrap_message data" using a ns False by (simp add: bootstrap_message_def)
        have key: "reply_key data = (if truthy (js_or r t) then js_toString (js_or r t)
                                     else js_toString action)"
          by (simp add: reply_key_def a r t)
        show ?thesis
        proof (cases "loose_eq action ''event'' \<or> loose_eq action ''msg'' \<or> loose_eq action ''interuser''")
          case True
          with assms e1 Some a ns False obtain s2 where
            e2: "emit ''server_event'' (Data data) s1 = Inr s2"
            by (auto simp: receive_message_def split: sum.splits)
          with assms e1 Some a ns False True r t have "emit (reply_key data) (Data data) s2 = Inr s'"
            unfolding key by (auto simp: receive_message_def split: if_splits)
          then show ?thesis using e1 Some nb nn e2 by blast
        next
          case no: False
          with assms e1 Some a ns False r t have "emit (reply_key data) (Data data) s1 = Inr s'"
            unfolding key by (auto simp: receive_message_def split: if_splits)
          then show ?thesis using e1 Some nb nn by blast
        qed
      qed
    qed
  qed
qed

lemma receive_message_inv:
  assumes inv: "session_inv s" and r: "receive_message p raw s = Inr s'"
  shows "session_inv s'"
proof -
  from receive_message_cases [OF r] obtain s1 where e1: "emit ''raw'' (Data JNull) s = Inr s1"
    and c: "(p raw = None \<and> s' = s1)
              \<or> (\<exists>data. p raw = Some data \<and> bootstrap_message data
                   \<and> s_eventer s' = s_eventer s1 \<and> s_inflight s' = s_inflight s1
                   \<and> s_requests s' = s_requests s1)
              \<or> (\<exists>data s2. p raw = Some data \<and> \<not> bootstrap_message data \<and> \<not> nullish data
                   \<and> (s2 = s1 \<or> emit ''server_event'' (Data data) s1 = Inr s2)
                   \<and> emit (reply_key data) (Data data) s2 = Inr s')"
    by blast
  note i1 = emit_inv(1) [OF inv e1]
  from c consider "s' = s1"
    | "s_eventer s' = s_eventer s1 \<and> s_inflight s' = s_inflight s1 \<and> s_requests s' = s_requests s1"
    | data s2 where "s2 = s1 \<or> emit ''server_event'' (Data data) s1 = Inr s2"
        "emit (reply_key data) (Data data) s2 = Inr s'"
    by blast
  then show ?thesis
  proof cases
    case 1
    then show ?thesis using i1 by simp
  next
    case 2
    then show ?thesis using session_inv_cong [OF i1, of s'] by simp
  next
    case 3
    from 3(1) have "session_inv s2" using i1 emit_inv(1) [OF i1] by blast
    from emit_inv(1) [OF this 3(2)] show ?thesis .
  qed
qed






lemma new_session_inv: "session_inv (new_session u)"
  by (simp add: session_inv_def new_session_def waiting_def waiting_no_id_def)

lemma session_step_inv:
  assumes "session_inv s" and "session_step json_parse e s = Some s'"
  shows "session_inv s'"
proof (cases e)
  case Open
  with assms show ?thesis by (auto simp: session_step_def on_open_inv)
next
  case Close
  with assms(2) have "on_close s = Inr s'" by (auto simp: session_step_def split: sum.splits)
  with on_close_effect [OF assms(1)] show ?thesis by auto
next
  case (Error code)
  with assms(2) have "on_error code s = Inr s'" by (auto simp: session_step_def split: sum.splits)
  from on_error_inv [OF assms(1) this] show ?thesis .
next
  case (Message raw)
  with assms(2) have "receive_message json_parse raw s = Inr s'"
    by (auto simp: session_step_def split: sum.splits)
  from receive_message_inv [OF assms(1) this] show ?thesis .
next
  case (SendCommand data name timeout)
  with assms(2) obtain h where "send_command data name timeout s = Some (s', h)"
    by (auto simp: session_step_def)
  from send_command_inv [OF assms(1) this] show ?thesis .
next
  case (SendCommandNoResponseId data timeout)
  with assms(2) obtain h where "send_command_no_response_id data timeout s = Inr (s', h)"
    by (auto simp: session_step_def split: sum.splits)
  from send_command_no_response_id_inv [OF assms(1) this] show ?thesis .
next
  case (TimerFires h)
  with assms show ?thesis by (auto simp: session_step_def timer_fires_inv)
next
  case (OnClose f)
  with assms show ?thesis by (auto simp: session_step_def add_close_callback_inv)
next
  case (ListenToEvents f flt)
  with assms show ?thesis by (auto simp: session_step_def listen_to_events_inv)
next
  case (StopListeningToEvents f flt)
  with assms show ?thesis by (auto simp: session_step_def stop_listening_to_events_inv)
next
  case (CacheTunnel c key t)
  with assms show ?thesis by (auto simp: session_step_def cache_tunnel_inv)
next
  case CallClose
  with assms show ?thesis by (auto simp: session_step_def session_close_inv)
qed

lemma reachable_inv: "reachable json_parse u s \<Longrightarrow> session_inv s"
  by (induction rule: reachable.induct) (auto intro: new_session_inv session_step_inv)

lemma session_run_reachable:
  "reachable json_parse u s \<Longrightarrow> session_run json_parse es s = Some s' \<Longrightarrow> reachable json_parse u s'"
proof (induction es arbitrary: s)
  case Nil
  then show ?case by simp
next
  case (Cons e es)
  from Cons.prems(2) obtain s1 where s1: "session_step json_parse e s = Some s1"
    and r: "session_run json_parse es s1 = Some s'"
    by (auto split: option.splits)
  from Cons.IH [OF reachable.step [OF Cons.prems(1) s1] r] show ?case .
qed




lemma show_nat_small:
  "show_nat (Suc 0) = ''1''" "show_nat 1 = ''1''" "show_nat 2 = ''2''"
  "show_nat (Suc (Suc 0)) = ''2''"
  by code_simp+

lemma demo_probe_1: "probe_id [] ''list_users'' 0 = Some (''meshctrl_list_users_1'', Suc 0)"
  by (subst probe_id.simps)
    (simp add: get_command_id_def id_modulus_def command_name_def Let_def show_nat_small)

lemma demo_probe_2:
  "probe_id [''meshctrl_list_users_1''] ''list_users'' (Suc 0) = Some (''meshctrl_list_users_2'', 2)"
  by (subst probe_id.simps)
    (simp add: get_command_id_def id_modulus_def command_name_def Let_def show_nat_small)

lemma demo_session_run:
  "session_run demo_parse demo_events (new_session demo_url) = Some demo_state"
  by (simp add: demo_events_def session_step_def new_session_def on_open_def send_command_def
      demo_probe_1 demo_probe_2 Let_def demo_state_def
      obj_assign_def Object_entries_def add_close_callback_def cache_tunnel_def resolve_def)

lemma demo_session_eq: "demo_session = demo_state"
  by (simp add: demo_session_def demo_session_run)

lemma demo_session_reachable: "reachable demo_parse demo_url demo_session"
  using session_run_reachable [OF reachable.init demo_session_run]
  by (simp add: demo_session_eq)

lemma demo_waiting:
  "(0, ''meshctrl_list_users_1'') \<in> waiting demo_session"
  "(Suc 0, ''meshctrl_list_users_2'') \<in> waiting demo_session"
  by (auto simp: waiting_def demo_session_eq demo_state_def)





text \<open>
  C5.  When the socket of a session closes, in any state the session has reached,
  the \<open>close\<close> handler runs to its end and leaves this: every pending correlated
  request has its promise rejected with \<open>SocketError("Socket Closed")\<close> (and so has
  the promise returned to the caller, unless its timer had rejected it before), no
  id is in flight and no request is pending any more; the readiness promise is
  rejected with \<open>"Closed"\<close> if it was not settled and left as it was otherwise; the
  live flag is false; every callback registered with \<open>on_close\<close> has been called
  with the error; and \<open>close\<close> has been called on every tunnel in the three caches.
\<close>

theorem transport_close_fan_out:
  assumes "reachable json_parse u s"
  shows "\<exists>s'. on_close s = Inr s'
          \<and> (\<forall>h i. (h, i) \<in> waiting s \<longrightarrow>
                rq_p (s_requests s' ! h) = Failed (Exn (SocketError ''Socket Closed''))
                \<and> rq_result (s_requests s' ! h)
                    = (if rq_result (s_requests s ! h) = Unsettled
                       then Failed (Exn (SocketError ''Socket Closed''))
                       else rq_result (s_requests s ! h)))
          \<and> s_inflight s' = [] \<and> waiting s' = {}
          \<and> s_initialized s' = (if s_initialized s = Unsettled
                                  then Failed (Data (JStr ''Closed'')) else s_initialized s)
          \<and> \<not> s_alive s'
          \<and> (\<forall>f. (''close'', False, CloseCallback f) \<in> set (s_eventer s) \<longrightarrow>
                (f, Exn (SocketError ''Socket Closed'')) \<in> set (s_calls s'))
          \<and> (\<forall>key t. (key, t) \<in> set (s_file_tunnels s) \<union> set (s_shell_tunnels s)
                          \<union> set (s_smart_shell_tunnels s) \<longrightarrow>
                t \<in> set (s_tunnel_close_calls s'))"
proof -
  from on_close_effect [OF reachable_inv [OF assms]] obtain s' where
    oc: "on_close s = Inr s'"
    and e: "s_inflight s' = []" "waiting s' = {}" "\<not> s_alive s'"
    and ini: "s_initialized s' = (if resolved (s_initialized s) then s_initialized s
                                  else reject (s_initialized s) (Data (JStr ''Closed'')))"
    and req: "\<forall>h i. (h, i) \<in> waiting s \<longrightarrow>
                rq_p (s_requests s' ! h) = Failed (Exn (SocketError ''Socket Closed''))
                \<and> rq_result (s_requests s' ! h)
                    = settle_p (Exn (SocketError ''Socket Closed'')) (rq_result (s_requests s ! h))"
    and calls: "\<forall>f. (''close'', False, CloseCallback f) \<in> set (s_eventer s) \<longrightarrow>
                (f, Exn (SocketError ''Socket Closed'')) \<in> set (s_calls s')"
    and tun: "s_tunnel_close_calls s' = s_tunnel_close_calls s
                @ map snd (s_file_tunnels s) @ map snd (s_shell_tunnels s)
                @ map snd (s_smart_shell_tunnels s)"
    by blast
  have sp: "settle_p (Exn (SocketError ''Socket Closed'')) d
              = (if d = Unsettled then Failed (Exn (SocketError ''Socket Closed'')) else d)" for d
    by (cases d) (simp_all add: settle_p_def instanceof_Error_def reject_def)
  have ini': "s_initialized s' = (if s_initialized s = Unsettled
                                  then Failed (Data (JStr ''Closed'')) else s_initialized s)"
    unfolding ini by (cases "s_initialized s") (simp_all add: resolved_def reject_def)
  have tun': "t \<in> set (s_tunnel_close_calls s')"
    if "(key, t) \<in> set (s_file_tunnels s) \<union> set (s_shell_tunnels s)
                          \<union> set (s_smart_shell_tunnels s)" for key t
    using that unfolding tun by force
  show ?thesis
    using oc req e ini' calls tun' unfolding sp by blast
qed

lemma demo_on_close: "on_close demo_session = Inr demo_after_close"
  unfolding demo_after_close_def demo_session_eq
  by (simp add: demo_state_def on_close_def emit_def called_def resolved_def reject_def
      settle_request_def instanceof_Error_def new_request_def Let_def close_tunnels_def)

theorem transport_close_fan_out_witness:
  "reachable demo_parse demo_url demo_session
   \<and> (0, ''meshctrl_list_users_1'') \<in> waiting demo_session
   \<and> (Suc 0, ''meshctrl_list_users_2'') \<in> waiting demo_session
   \<and> (''close'', False, CloseCallback 7) \<in> set (s_eventer demo_session)
   \<and> (''node//a'', 3) \<in> set (s_file_tunnels demo_session)
   \<and> on_close demo_session = Inr demo_after_close
   \<and> rq_p (s_requests demo_after_close ! 0) = Failed (Exn (SocketError ''Socket Closed''))
   \<and> rq_p (s_requests demo_after_close ! Suc 0) = Failed (Exn (SocketError ''Socket Closed''))
   \<and> s_inflight demo_after_close = []
   \<and> s_initialized demo_after_close = Failed (Data (JStr ''Closed''))
   \<and> \<not> s_alive demo_after_close
   \<and> (7, Exn (SocketError ''Socket Closed'')) \<in> set (s_calls demo_after_close)
   \<and> 3 \<in> set (s_tunnel_close_calls demo_after_close)"
proof -
  have c: "(''close'', False, CloseCallback 7) \<in> set (s_eventer demo_session)"
    and t: "(''node//a'', 3) \<in> set (s_file_tunnels demo_session)"
    and i: "s_initialized demo_session = Unsettled"
    by (simp_all add: demo_session_eq demo_state_def)
  from transport_close_fan_out [OF demo_session_reachable] demo_on_close
  have r: "\<forall>h i. (h, i) \<in> waiting demo_session \<longrightarrow>
             rq_p (s_requests demo_after_close ! h) = Failed (Exn (SocketError ''Socket Closed''))"
    "s_inflight demo_after_close = []"
    "s_initialized demo_after_close = (if s_initialized demo_session = Unsettled
                                  then Failed (Data (JStr ''Closed'')) else s_initialized demo_session)"
    "\<not> s_alive demo_after_close"
    "\<forall>f. (''close'', False, CloseCallback f) \<in> set (s_eventer demo_session) \<longrightarrow>
        (f, Exn (SocketError ''Socket Closed'')) \<in> set (s_calls demo_after_close)"
    "\<forall>key t. (key, t) \<in> set (s_file_tunnels demo_session) \<union> set (s_shell_tunnels demo_session)
                          \<union> set (s_smart_shell_tunnels demo_session) \<longrightarrow>
                t \<in> set (s_tunnel_close_calls demo_after_close)"
    by auto
  have "3 \<in> set (s_tunnel_close_calls demo_after_close)" using r(6) t by blast
  moreover have "(7, Exn (SocketError ''Socket Closed'')) \<in> set (s_calls demo_after_close)"
    using r(5) c by blast
  moreover have "s_initialized demo_after_close = Failed (Data (JStr ''Closed''))"
    using r(3) i by simp
  ultimately show ?thesis
    using demo_session_reachable demo_waiting c t demo_on_close r(1,2,4) by blast
qed

end
